theory Spec2Isabelle
  imports Main "HOL-Library.Word"
begin

unbundle bit_operations_syntax

section \<open>Code-generation dispatch: the fallback generator\<close>

text \<open>
  \<^verbatim>\<open>NotYetImplementedCodeGenerator.generate(node, context)\<close> consists of the single statement
  \<^verbatim>\<open>throw CodeGenerationDiagnostic.unsupportedSyntaxKind(node)\<close>.  The syntax node and the
  generation context are external types: a node carries its kind, its source location and
  its children, the context is left abstract.  A call returns the outcome (the raised
  diagnostic or a normal return) together with the context as it stands afterwards.
\<close>

datatype ('k, 'l) SyntaxNode =
  SyntaxNode (kind: 'k) (location: 'l) (children: "('k, 'l) SyntaxNode list")

text \<open>
  Modelled from the spec: \<^verbatim>\<open>CodeGenerationDiagnostic\<close> and its factory
  \<^verbatim>\<open>unsupportedSyntaxKind\<close> are declared in \<^verbatim>\<open>code-generation-diagnostic.ts\<close>, which is
  not among the sources.  The specification describes a diagnostic as
  \<open>{nodeLocation, category, message}\<close> and the one raised by the fallback as "a diagnostic
  naming the node's kind and source location", of category UnsupportedSyntaxKind; the
  message is represented by the kind it names.
\<close>

datatype category = UnsupportedSyntaxKind

record ('k, 'l) Diagnostic =
  nodeLocation :: 'l
  category :: category
  message :: 'k

definition unsupportedSyntaxKind :: "('k, 'l) SyntaxNode \<Rightarrow> ('k, 'l) Diagnostic" where
  "unsupportedSyntaxKind node =
     \<lparr>nodeLocation = location node, category = UnsupportedSyntaxKind, message = kind node\<rparr>"

definition generate :: "('k, 'l) SyntaxNode \<Rightarrow> 'c \<Rightarrow> (('k, 'l) Diagnostic + unit) \<times> 'c" where
  "generate node context = (Inl (unsupportedSyntaxKind node), context)"

section \<open>The bitcode linker: which object files are linked\<close>

text \<open>
  \<^verbatim>\<open>LLVMLink.getObjectFilesToLink\<close> and \<^verbatim>\<open>considerObjectFile\<close>.  Object files are
  their paths.  The symbol resolver (\<^verbatim>\<open>LLVMByteCodeSymbolsResolver.getSymbols\<close>, which runs
  \<^verbatim>\<open>llvm-nm\<close>) is not among the sources and is a parameter \<open>getSymbols\<close>: it maps a path
  to the symbols the file defines and the symbols it leaves undefined (the field
  \<^verbatim>\<open>undefined\<close> of the source is \<open>undefined_sym\<close> here).

  A JavaScript \<^verbatim>\<open>Set\<close> is a list without duplicates in insertion order: \<open>Set_new\<close> is
  \<^verbatim>\<open>new Set(xs)\<close>, \<open>Set_add\<close> is \<^verbatim>\<open>add\<close>, \<open>Set_delete\<close> is \<^verbatim>\<open>delete\<close>, membership
  is \<^verbatim>\<open>has\<close> and the length is \<^verbatim>\<open>size\<close>.
\<close>

record symbols =
  defined :: "string list"
  undefined_sym :: "string list"

definition Set_add :: "'a list \<Rightarrow> 'a \<Rightarrow> 'a list" where
  "Set_add s x = (if x \<in> set s then s else s @ [x])"

definition Set_delete :: "'a list \<Rightarrow> 'a \<Rightarrow> 'a list" where
  "Set_delete s x = removeAll x s"

definition Set_new :: "'a list \<Rightarrow> 'a list" where
  "Set_new xs = foldl Set_add [] xs"

text \<open>
  \<^verbatim>\<open>intersects\<close> walks the smaller of the two sets and looks each symbol up in the other
  one.  The source picks \<^verbatim>\<open>larger\<close> by comparing references (\<^verbatim>\<open>setA === smaller\<close>); for
  two distinct sets that is the set that was not chosen as \<^verbatim>\<open>smaller\<close>, and for one and
  the same set either choice is that set.
\<close>

definition intersects :: "'a list \<Rightarrow> 'a list \<Rightarrow> bool" where
  "intersects setA setB =
     (let smaller = (if length setA < length setB then setA else setB);
          larger = (if length setA < length setB then setB else setA)
      in list_ex (\<lambda>symbol. symbol \<in> set larger) smaller)"

definition considerObjectFile ::
    "(string \<Rightarrow> symbols) \<Rightarrow> string \<Rightarrow> string list \<Rightarrow> bool \<times> string list" where
  "considerObjectFile getSymbols objectFile unresolvedSymbols =
     (let symbols = getSymbols objectFile
      in if intersects unresolvedSymbols (defined symbols)
         then (True, foldl Set_add (foldl Set_delete unresolvedSymbols (defined symbols))
                       (undefined_sym symbols))
         else (False, unresolvedSymbols))"

text \<open>
  The state of \<^verbatim>\<open>getObjectFilesToLink\<close> is its three local variables.  \<open>scan\<close> is the
  \<^verbatim>\<open>for\<close> loop over the candidate files, \<open>loop_body\<close> one round of the \<^verbatim>\<open>while\<close> loop
  (\<^verbatim>\<open>loopAgain = false\<close>, then the scan), and \<open>resolution_loop\<close> the \<^verbatim>\<open>while (loopAgain)\<close>
  loop itself: a partial function, whose value \<open>None\<close> would be a loop that never ends.
\<close>

record link_state =
  loopAgain :: bool
  includedObjectFiles :: "string list"
  unresolvedSymbols :: "string list"

fun scan :: "(string \<Rightarrow> symbols) \<Rightarrow> string list \<Rightarrow> link_state \<Rightarrow> link_state" where
  "scan getSymbols [] st = st"
| "scan getSymbols (objectFile # objectFiles) st =
     (if objectFile \<in> set (includedObjectFiles st) then scan getSymbols objectFiles st
      else case considerObjectFile getSymbols objectFile (unresolvedSymbols st) of
        (True, unresolved) \<Rightarrow>
          scan getSymbols objectFiles
            (st\<lparr>unresolvedSymbols := unresolved,
                includedObjectFiles := Set_add (includedObjectFiles st) objectFile,
                loopAgain := True\<rparr>)
      | (False, unresolved) \<Rightarrow>
          scan getSymbols objectFiles (st\<lparr>unresolvedSymbols := unresolved\<rparr>))"

definition loop_body :: "(string \<Rightarrow> symbols) \<Rightarrow> string list \<Rightarrow> link_state \<Rightarrow> link_state" where
  "loop_body getSymbols objectFiles st = scan getSymbols objectFiles (st\<lparr>loopAgain := False\<rparr>)"

partial_function (option) resolution_loop ::
    "(string \<Rightarrow> symbols) \<Rightarrow> string list \<Rightarrow> link_state \<Rightarrow> link_state option" where
  "resolution_loop getSymbols objectFiles st =
     (if loopAgain st then resolution_loop getSymbols objectFiles (loop_body getSymbols objectFiles st)
      else Some st)"

declare resolution_loop.simps [code]

definition initial_state :: "string list \<Rightarrow> link_state" where
  "initial_state entrySymbols =
     \<lparr>loopAgain = True, includedObjectFiles = [], unresolvedSymbols = Set_new entrySymbols\<rparr>"

definition getObjectFilesToLink ::
    "(string \<Rightarrow> symbols) \<Rightarrow> string list \<Rightarrow> string list \<Rightarrow> string list option" where
  "getObjectFilesToLink getSymbols objectFiles entrySymbols =
     map_option includedObjectFiles
       (resolution_loop getSymbols objectFiles (initial_state entrySymbols))"

text \<open>
  The symbols transitively required by the entry symbols: an entry symbol is required, and
  when a candidate file defines a required symbol, every symbol that file leaves undefined
  is required too.
\<close>

inductive_set reachable :: "(string \<Rightarrow> symbols) \<Rightarrow> string list \<Rightarrow> string list \<Rightarrow> string set"
  for getSymbols :: "string \<Rightarrow> symbols" and objectFiles :: "string list"
    and entrySymbols :: "string list" where
  entry: "s \<in> set entrySymbols \<Longrightarrow> s \<in> reachable getSymbols objectFiles entrySymbols"
| reference: "s \<in> reachable getSymbols objectFiles entrySymbols \<Longrightarrow> f \<in> set objectFiles \<Longrightarrow>
     s \<in> set (defined (getSymbols f)) \<Longrightarrow> u \<in> set (undefined_sym (getSymbols f)) \<Longrightarrow>
     u \<in> reachable getSymbols objectFiles entrySymbols"

text \<open>
  An example session: \<open>A\<close> defines \<open>main\<close> and refers to \<open>helper\<close>, \<open>B\<close> defines
  \<open>helper\<close> and refers to \<open>printf\<close>, which no candidate defines, and every other file
  defines \<open>unused\<close>.
\<close>

definition example_symbols :: "string \<Rightarrow> symbols" where
  "example_symbols f = (if f = ''A'' then \<lparr>defined = [''main''], undefined_sym = [''helper'']\<rparr>
     else if f = ''B'' then \<lparr>defined = [''helper''], undefined_sym = [''printf'']\<rparr>
     else \<lparr>defined = [''unused''], undefined_sym = [''printf'']\<rparr>)"

section \<open>The runtime array\<close>

text \<open>
  The class template \<^verbatim>\<open>Array<T>\<close> of the runtime, compiled for the 32-bit WebAssembly
  target: \<^verbatim>\<open>size_t\<close> is an unsigned 32-bit word whose arithmetic wraps around, and
  \<^verbatim>\<open>int32_t\<close> is a 32-bit word read in two's complement (\<open>sint\<close>, \<open><s\<close>).  \<open>INT32_MAX\<close>
  is the constant as converted to \<^verbatim>\<open>size_t\<close> in the comparisons of the source.

  The exceptions of the source are the error values of the specification:
  \<^verbatim>\<open>std::out_of_range\<close> with the messages "Index out of bound", "Start index is out of
  range" and "End index is out of range" is \<open>IndexOutOfRange\<close>, with "Array is empty" it
  is \<open>EmptyArray\<close>, with "Array size exceeded max limit" it is \<open>CapacityExceeded\<close>, and
  \<^verbatim>\<open>std::bad_alloc\<close> is \<open>OutOfMemory\<close>.  \<open>UndefinedBehaviour\<close> is not an exception: it
  marks an access outside the allocated block, or the read of a slot that was never
  written, where C++ gives the program no meaning.
\<close>

type_synonym size_t = "32 word"
type_synonym int32_t = "32 word"

definition CAPACITY_GROW_FACTOR :: size_t where
  "CAPACITY_GROW_FACTOR = 2"

definition DEFAULT_CAPACITY :: size_t where
  "DEFAULT_CAPACITY = 16"

definition INT32_MAX :: size_t where
  "INT32_MAX = 2147483647"

datatype error = IndexOutOfRange | EmptyArray | CapacityExceeded | OutOfMemory | UndefinedBehaviour

type_synonym 'a block = "'a option list"

text \<open>
  The storage behind \<^verbatim>\<open>elements\<close> is a block of slots; a slot is \<open>None\<close> until it has
  been written.  The pointer is \<open>None\<close> (\<^verbatim>\<open>nullptr\<close>) or \<open>Some\<close> block.  \<open>block_of\<close> reads
  through the pointer (no slot can be reached through \<^verbatim>\<open>nullptr\<close>), and \<open>same_block\<close>
  puts the updated slots back behind the same pointer.

  \<^item> \<open>load\<close> and \<open>store\<close> are \<^verbatim>\<open>elements[i]\<close> read and written;
  \<^item> \<open>fill_n b p n v\<close> is \<^verbatim>\<open>std::fill_n(&b[p], n, v)\<close>, and \<^verbatim>\<open>std::fill(first, last, v)\<close>
    with \<open>n = last - first\<close>;
  \<^item> \<open>copy_in xs b d\<close> is \<^verbatim>\<open>std::copy(xs, xs + n, &b[d])\<close> from an array \<open>xs\<close> of the
    caller;
  \<^item> \<open>copy b s n d\<close> is \<^verbatim>\<open>std::copy(&b[s], &b[s] + n, &b[d])\<close> inside one block.  The
    elements are kept in storage from \<^verbatim>\<open>realloc\<close>, so \<^verbatim>\<open>T\<close> is trivially copyable, and
    on pointers to such a type the standard libraries carry out \<^verbatim>\<open>std::copy\<close> as one
    \<^verbatim>\<open>memmove\<close>: the \<open>n\<close> slots arrive as they were before the call, also when the
    destination starts inside the source range.  (That is the call in \<^verbatim>\<open>unshift\<close>; the
    C++ standard asks for \<^verbatim>\<open>std::copy_backward\<close> there.)
  Each of them is \<open>None\<close> when it leaves the block.
\<close>

record 'a Array =
  length_A :: size_t
  capacity :: size_t
  elements :: "'a block option"

definition block_of :: "'a block option \<Rightarrow> 'a block" where
  "block_of p = (case p of None \<Rightarrow> [] | Some b \<Rightarrow> b)"

definition same_block :: "'a block option \<Rightarrow> 'a block \<Rightarrow> 'a block option" where
  "same_block p b = (case p of None \<Rightarrow> None | Some _ \<Rightarrow> Some b)"

definition load :: "'a block option \<Rightarrow> nat \<Rightarrow> 'a option" where
  "load p i = (if i < length (block_of p) then block_of p ! i else None)"

definition store :: "'a block \<Rightarrow> nat \<Rightarrow> 'a \<Rightarrow> 'a block option" where
  "store b i v = (if i < length b then Some (b[i := Some v]) else None)"

fun fill_n :: "'a block \<Rightarrow> nat \<Rightarrow> nat \<Rightarrow> 'a \<Rightarrow> 'a block option" where
  "fill_n b p 0 v = Some b"
| "fill_n b p (Suc n) v = (if p < length b then fill_n (b[p := Some v]) (Suc p) n v else None)"

fun copy_in :: "'a list \<Rightarrow> 'a block \<Rightarrow> nat \<Rightarrow> 'a block option" where
  "copy_in [] b d = Some b"
| "copy_in (x # xs) b d = (if d < length b then copy_in xs (b[d := Some x]) (Suc d) else None)"

definition copy :: "'a block \<Rightarrow> nat \<Rightarrow> nat \<Rightarrow> nat \<Rightarrow> 'a block option" where
  "copy b s n d =
     (if n = 0 then Some b
      else if s + n \<le> length b \<and> d + n \<le> length b
      then Some (take d b @ take n (drop s b) @ drop (d + n) b)
      else None)"

text \<open>
  \<^verbatim>\<open>allocateElements\<close> calls \<^verbatim>\<open>std::realloc(elements, capacity * sizeof(T))\<close>.  The
  product is computed in \<^verbatim>\<open>size_t\<close> and wraps around; the one check before it is
  \<^verbatim>\<open>capacity > INT32_MAX\<close>.  \<^verbatim>\<open>T\<close> is a scalar type of the 32-bit target (a boolean, an
  integer, a floating-point number or a pointer) and only its size matters to the
  allocation: \<open>sizeof_T\<close>, which is 1, 2, 4 or 8 bytes.  It is one half of the parameter
  \<open>mem\<close> of every operation that can allocate; the other half, \<open>grants\<close>, says for each
  byte count whether \<^verbatim>\<open>realloc\<close> grants the request.  A granted block has room for as many
  elements as the granted bytes hold; it keeps the old slots that fit and its other slots
  are unwritten.  A refused request leaves the old block as it was (for a request of zero
  bytes C leaves it to the implementation whether the old block is freed; that
  distinction is not made here).
\<close>

datatype element_size = Bytes1 | Bytes2 | Bytes4 | Bytes8

fun sizeof :: "element_size \<Rightarrow> size_t" where
  "sizeof Bytes1 = 1"
| "sizeof Bytes2 = 2"
| "sizeof Bytes4 = 4"
| "sizeof Bytes8 = 8"

record memory =
  sizeof_T :: element_size
  grants :: "nat \<Rightarrow> bool"

definition realloc :: "memory \<Rightarrow> 'a block option \<Rightarrow> size_t \<Rightarrow> 'a block option" where
  "realloc mem ptr new_size =
     (if grants mem (unat new_size)
      then let n = unat new_size div unat (sizeof (sizeof_T mem))
           in Some (take n (block_of ptr) @ replicate (n - length (block_of ptr)) None)
      else None)"

definition allocateElements :: "memory \<Rightarrow> size_t \<Rightarrow> 'a block option \<Rightarrow> error + 'a block" where
  "allocateElements mem cap elems =
     (if cap > INT32_MAX then Inl CapacityExceeded
      else case realloc mem elems (cap * sizeof (sizeof_T mem)) of
             None \<Rightarrow> Inl OutOfMemory
           | Some allocation \<Rightarrow> Inr allocation)"

text \<open>
  The constructor takes the pointer \<^verbatim>\<open>elements\<close> as \<open>None\<close> (\<^verbatim>\<open>nullptr\<close>) or as the
  array it points to, and returns the new array or the exception.  A member function that
  can change the array returns its outcome (the exception or the returned value) together
  with the array as it stands afterwards; \<^verbatim>\<open>get\<close> is \<^verbatim>\<open>const\<close> and returns its outcome
  only.  \<open>length_A\<close>, \<open>set_A\<close> and \<open>size_A\<close> are \<^verbatim>\<open>length\<close>, \<^verbatim>\<open>set\<close> and \<^verbatim>\<open>size\<close>;
  \<open>fill_from\<close> is the overload \<^verbatim>\<open>fill(value, start)\<close>; \<open>resolveIndex\<close> is the expression
  that computes \<^verbatim>\<open>startIndex\<close> and \<^verbatim>\<open>endIndex\<close> in \<^verbatim>\<open>fill\<close>.
\<close>

definition Array :: "memory \<Rightarrow> size_t \<Rightarrow> 'a list option \<Rightarrow> error + ('a::zero) Array" where
  "Array mem sz elems =
     (if sz = 0 then Inr \<lparr>length_A = sz, capacity = sz, elements = None\<rparr>
      else case allocateElements mem sz None of
        Inl e \<Rightarrow> Inl e
      | Inr b \<Rightarrow>
          (case (case elems of
                   None \<Rightarrow> fill_n b 0 (unat sz) 0
                 | Some src \<Rightarrow> if unat sz \<le> length src then copy_in (take (unat sz) src) b 0 else None) of
             None \<Rightarrow> Inl UndefinedBehaviour
           | Some b' \<Rightarrow> Inr \<lparr>length_A = sz, capacity = sz, elements = Some b'\<rparr>))"

definition get :: "'a Array \<Rightarrow> size_t \<Rightarrow> error + 'a" where
  "get a index =
     (if length_A a \<le> index then Inl IndexOutOfRange
      else case load (elements a) (unat index) of
        None \<Rightarrow> Inl UndefinedBehaviour
      | Some v \<Rightarrow> Inr v)"

definition ensureCapacity :: "memory \<Rightarrow> size_t \<Rightarrow> 'a Array \<Rightarrow> (error + unit) \<times> 'a Array" where
  "ensureCapacity mem m a =
     (if capacity a \<ge> m then (Inr (), a)
      else if m > INT32_MAX then (Inl CapacityExceeded, a)
      else
        let newCapacity = (if capacity a = 0 then DEFAULT_CAPACITY
                           else capacity a * CAPACITY_GROW_FACTOR);
            newCapacity = (if newCapacity < m then m else newCapacity);
            newCapacity = (if newCapacity > INT32_MAX then INT32_MAX else newCapacity)
        in case allocateElements mem newCapacity (elements a) of
             Inl e \<Rightarrow> (Inl e, a)
           | Inr b \<Rightarrow> (Inr (), a\<lparr>elements := Some b, capacity := newCapacity\<rparr>))"

definition resize :: "memory \<Rightarrow> size_t \<Rightarrow> ('a::zero) Array \<Rightarrow> (error + unit) \<times> 'a Array" where
  "resize mem newSize a =
     (case ensureCapacity mem newSize a of
        (Inl e, a') \<Rightarrow> (Inl e, a')
      | (Inr _, a') \<Rightarrow>
          if length_A a' < newSize then
            (case fill_n (block_of (elements a')) (unat (length_A a'))
                    (unat (newSize - length_A a')) 0 of
               None \<Rightarrow> (Inl UndefinedBehaviour, a')
             | Some b \<Rightarrow> (Inr (), a'\<lparr>elements := same_block (elements a') b, length_A := newSize\<rparr>))
          else (Inr (), a'\<lparr>length_A := newSize\<rparr>))"

definition set_A :: "memory \<Rightarrow> size_t \<Rightarrow> 'a \<Rightarrow> ('a::zero) Array \<Rightarrow> (error + unit) \<times> 'a Array" where
  "set_A mem index v a =
     (case (if length_A a \<le> index then resize mem (index + 1) a else (Inr (), a)) of
        (Inl e, a') \<Rightarrow> (Inl e, a')
      | (Inr _, a') \<Rightarrow>
          (case store (block_of (elements a')) (unat index) v of
             None \<Rightarrow> (Inl UndefinedBehaviour, a')
           | Some b \<Rightarrow> (Inr (), a'\<lparr>elements := same_block (elements a') b\<rparr>)))"

definition resolveIndex :: "size_t \<Rightarrow> int32_t \<Rightarrow> size_t" where
  "resolveIndex len i = (if i <s 0 then len + scast i else scast i)"

definition fill :: "'a \<Rightarrow> int32_t \<Rightarrow> int32_t \<Rightarrow> 'a Array \<Rightarrow> (error + unit) \<times> 'a Array" where
  "fill v start end' a =
     (let startIndex = resolveIndex (length_A a) start;
          endIndex = resolveIndex (length_A a) end'
      in if startIndex \<ge> length_A a then (Inl IndexOutOfRange, a)
         else if endIndex > length_A a then (Inl IndexOutOfRange, a)
         else if endIndex < startIndex then (Inr (), a)
         else case fill_n (block_of (elements a)) (unat startIndex)
                     (unat endIndex - unat startIndex) v of
                None \<Rightarrow> (Inl UndefinedBehaviour, a)
              | Some b \<Rightarrow> (Inr (), a\<lparr>elements := same_block (elements a) b\<rparr>))"

definition fill_from :: "'a \<Rightarrow> int32_t \<Rightarrow> 'a Array \<Rightarrow> (error + unit) \<times> 'a Array" where
  "fill_from v start a = fill v start (ucast (length_A a)) a"

definition push :: "memory \<Rightarrow> 'a list \<Rightarrow> size_t \<Rightarrow> 'a Array \<Rightarrow> (error + size_t) \<times> 'a Array" where
  "push mem elems numElements a =
     (let newLength = length_A a + numElements
      in case ensureCapacity mem newLength a of
           (Inl e, a') \<Rightarrow> (Inl e, a')
         | (Inr _, a') \<Rightarrow>
             (case (if unat numElements \<le> length elems
                    then copy_in (take (unat numElements) elems) (block_of (elements a'))
                           (unat (length_A a'))
                    else None) of
                None \<Rightarrow> (Inl UndefinedBehaviour, a')
              | Some b \<Rightarrow>
                  (Inr newLength, a'\<lparr>elements := same_block (elements a') b, length_A := newLength\<rparr>)))"

definition unshift :: "memory \<Rightarrow> 'a list \<Rightarrow> size_t \<Rightarrow> 'a Array \<Rightarrow> (error + size_t) \<times> 'a Array" where
  "unshift mem elems numElements a =
     (let newLength = length_A a + numElements
      in case ensureCapacity mem newLength a of
           (Inl e, a') \<Rightarrow> (Inl e, a')
         | (Inr _, a') \<Rightarrow>
             (case copy (block_of (elements a')) 0 (unat (length_A a')) (unat numElements) of
                None \<Rightarrow> (Inl UndefinedBehaviour, a')
              | Some b1 \<Rightarrow>
                  (case (if unat numElements \<le> length elems
                         then copy_in (take (unat numElements) elems) b1 0
                         else None) of
                     None \<Rightarrow> (Inl UndefinedBehaviour, a')
                   | Some b2 \<Rightarrow>
                       (Inr newLength,
                        a'\<lparr>elements := same_block (elements a') b2, length_A := newLength\<rparr>))))"

definition pop :: "'a Array \<Rightarrow> (error + 'a) \<times> 'a Array" where
  "pop a =
     (if length_A a = 0 then (Inl EmptyArray, a)
      else
        let a' = a\<lparr>length_A := length_A a - 1\<rparr>
        in case load (elements a') (unat (length_A a')) of
             None \<Rightarrow> (Inl UndefinedBehaviour, a')
           | Some v \<Rightarrow> (Inr v, a'))"

definition shift :: "'a Array \<Rightarrow> (error + 'a) \<times> 'a Array" where
  "shift a =
     (if length_A a = 0 then (Inl EmptyArray, a)
      else case load (elements a) 0 of
        None \<Rightarrow> (Inl UndefinedBehaviour, a)
      | Some element \<Rightarrow>
          (case copy (block_of (elements a)) 1 (unat (length_A a) - 1) 0 of
             None \<Rightarrow> (Inl UndefinedBehaviour, a)
           | Some b \<Rightarrow>
               (Inr element, a\<lparr>elements := same_block (elements a) b, length_A := length_A a - 1\<rparr>)))"

definition size_A :: "'a Array \<Rightarrow> size_t" where
  "size_A a = length_A a"

text \<open>
  The invariants of the buffer: the length is at most the capacity; the pointer is
  \<^verbatim>\<open>nullptr\<close> exactly when the capacity is 0; the block has as many slots as the capacity
  says; and every slot below the length has been written.  \<open>contents\<close> reads the elements
  of the array, the slots below its length.
\<close>

definition inv_A :: "'a Array \<Rightarrow> bool" where
  "inv_A a \<longleftrightarrow>
     length_A a \<le> capacity a \<and>
     (elements a = None \<longleftrightarrow> capacity a = 0) \<and>
     length (block_of (elements a)) = unat (capacity a) \<and>
     list_all (\<lambda>s. s \<noteq> None) (take (unat (length_A a)) (block_of (elements a)))"

definition contents :: "'a Array \<Rightarrow> 'a list" where
  "contents a = map the (take (unat (length_A a)) (block_of (elements a)))"

text \<open>
  \<open>unlimited\<close> is the memory of an array of 4-byte elements (\<^verbatim>\<open>int32_t\<close>) in which
  \<^verbatim>\<open>realloc\<close> grants every request.  \<open>growth_policy\<close> is the growth policy in the words of
  the specification, on natural numbers:
  \<open>max(requiredMinimum, currentCapacity == 0 ? 16 : currentCapacity * 2)\<close>, capped at
  \<open>2\<^sup>3\<^sup>1 - 1\<close>.  \<open>fits mem m a\<close> says that \<^verbatim>\<open>ensureCapacity(m)\<close> on the array \<open>a\<close> asks
  \<^verbatim>\<open>realloc\<close> for no byte count that wraps around: the capacity suffices, or the new
  capacity times \<^verbatim>\<open>sizeof(T)\<close> is below \<open>2\<^sup>3\<^sup>2\<close>.
\<close>

definition unlimited :: memory where
  "unlimited = \<lparr>sizeof_T = Bytes4, grants = (\<lambda>n. True)\<rparr>"

definition growth_policy :: "nat \<Rightarrow> nat \<Rightarrow> nat" where
  "growth_policy currentCapacity requiredMinimum =
     min (2 ^ 31 - 1)
       (max requiredMinimum (if currentCapacity = 0 then 16 else currentCapacity * 2))"

definition fits :: "memory \<Rightarrow> size_t \<Rightarrow> 'a Array \<Rightarrow> bool" where
  "fits mem m a \<longleftrightarrow>
     m \<le> capacity a \<or>
     growth_policy (unat (capacity a)) (unat m) * unat (sizeof (sizeof_T mem)) < 4294967296"

text \<open>Example arrays.\<close>

definition empty_array :: "int Array" where
  "empty_array = \<lparr>length_A = 0, capacity = 0, elements = None\<rparr>"

definition zeros2 :: "int Array" where
  "zeros2 = \<lparr>length_A = 2, capacity = 2, elements = Some [Some 0, Some 0]\<rparr>"

definition zeros5 :: "int Array" where
  "zeros5 = \<lparr>length_A = 5, capacity = 5,
     elements = Some [Some 0, Some 0, Some 0, Some 0, Some 0]\<rparr>"

definition arr123 :: "int Array" where
  "arr123 = \<lparr>length_A = 3, capacity = 3, elements = Some [Some 1, Some 2, Some 3]\<rparr>"

definition full16 :: "int Array" where
  "full16 = \<lparr>length_A = 16, capacity = 16, elements = Some (replicate 16 (Some 1))\<rparr>"

section \<open>The fallback generator always fails\<close>

text \<open>
  C7. For every syntax node and every generation context, the fallback generator fails:
  the outcome is a raised diagnostic of category UnsupportedSyntaxKind whose location is
  the node's location and whose message names the node's kind, and the context after the
  call is the context before it.
\<close>

theorem generate_fails_unsupported:
  "generate node context =
     (Inl \<lparr>nodeLocation = location node, category = UnsupportedSyntaxKind, message = kind node\<rparr>,
      context)"
  by (simp add: generate_def unsupportedSyntaxKind_def)

section \<open>The resolution loop of the linker\<close>

subsection \<open>Sets, one scan, and the loop\<close>

lemma set_Set_add [simp]: "set (Set_add s x) = insert x (set s)"
  by (auto simp: Set_add_def)

lemma set_Set_delete [simp]: "set (Set_delete s x) = set s - {x}"
  by (auto simp: Set_delete_def)

lemma set_foldl_Set_add [simp]: "set (foldl Set_add s xs) = set s \<union> set xs"
  by (induction xs arbitrary: s) auto

lemma set_foldl_Set_delete [simp]: "set (foldl Set_delete s xs) = set s - set xs"
  by (induction xs arbitrary: s) auto

lemma set_Set_new [simp]: "set (Set_new xs) = set xs"
  by (simp add: Set_new_def)

lemma intersects_iff: "intersects setA setB \<longleftrightarrow> set setA \<inter> set setB \<noteq> {}"
  by (auto simp: intersects_def list_ex_iff)

lemma considerObjectFile_eq:
  "considerObjectFile gs f u =
     (if set u \<inter> set (defined (gs f)) \<noteq> {}
      then (True, foldl Set_add (foldl Set_delete u (defined (gs f))) (undefined_sym (gs f)))
      else (False, u))"
  by (simp add: considerObjectFile_def intersects_iff Let_def)

lemma scan_included:
  "\<exists>new. includedObjectFiles (scan gs fs st) = includedObjectFiles st @ new \<and>
     set new \<subseteq> set fs - set (includedObjectFiles st) \<and>
     (loopAgain (scan gs fs st) \<longleftrightarrow> loopAgain st \<or> new \<noteq> [])"
proof (induction fs arbitrary: st)
  case Nil
  then show ?case by simp
next
  case (Cons f fs)
  show ?case
  proof (cases "f \<in> set (includedObjectFiles st)")
    case True
    with Cons.IH [of st] show ?thesis by auto
  next
    case notin: False
    show ?thesis
    proof (cases "set (unresolvedSymbols st) \<inter> set (defined (gs f)) \<noteq> {}")
      case True
      let ?st1 = "st\<lparr>unresolvedSymbols := foldl Set_add
            (foldl Set_delete (unresolvedSymbols st) (defined (gs f))) (undefined_sym (gs f)),
          includedObjectFiles := Set_add (includedObjectFiles st) f, loopAgain := True\<rparr>"
      from Cons.IH [of ?st1] obtain new where
        new: "includedObjectFiles (scan gs fs ?st1) = includedObjectFiles ?st1 @ new"
          "set new \<subseteq> set fs - set (includedObjectFiles ?st1)"
          "loopAgain (scan gs fs ?st1)"
        by auto
      have "scan gs (f # fs) st = scan gs fs ?st1"
        using notin True by (simp add: considerObjectFile_eq)
      moreover have "includedObjectFiles ?st1 = includedObjectFiles st @ [f]"
        using notin by (simp add: Set_add_def)
      ultimately show ?thesis
        using new notin by (intro exI [of _ "f # new"]) auto
    next
      case False
      then have "scan gs (f # fs) st = scan gs fs st"
        using notin by (simp add: considerObjectFile_eq)
      with Cons.IH [of st] show ?thesis by auto
    qed
  qed
qed

lemma scan_nothing_new:
  assumes "\<not> loopAgain (scan gs fs st)"
  shows "scan gs fs st = st"
    and "\<forall>f\<in>set fs. f \<notin> set (includedObjectFiles st) \<longrightarrow>
           set (unresolvedSymbols st) \<inter> set (defined (gs f)) = {}"
proof -
  have "scan gs fs st = st \<and> (\<forall>f\<in>set fs. f \<notin> set (includedObjectFiles st) \<longrightarrow>
           set (unresolvedSymbols st) \<inter> set (defined (gs f)) = {})"
    using assms
  proof (induction fs arbitrary: st)
    case Nil
    then show ?case by simp
  next
    case (Cons f fs)
    show ?case
    proof (cases "f \<in> set (includedObjectFiles st)")
      case True
      with Cons show ?thesis by simp
    next
      case notin: False
      show ?thesis
      proof (cases "set (unresolvedSymbols st) \<inter> set (defined (gs f)) \<noteq> {}")
        case True
        let ?st1 = "st\<lparr>unresolvedSymbols := foldl Set_add
            (foldl Set_delete (unresolvedSymbols st) (defined (gs f))) (undefined_sym (gs f)),
          includedObjectFiles := Set_add (includedObjectFiles st) f, loopAgain := True\<rparr>"
        have "scan gs (f # fs) st = scan gs fs ?st1"
          using notin True by (simp add: considerObjectFile_eq)
        moreover have "loopAgain (scan gs fs ?st1)"
          using scan_included [of gs fs ?st1] by auto
        ultimately show ?thesis using Cons.prems by simp
      next
        case False
        then have "scan gs (f # fs) st = scan gs fs st"
          using notin by (simp add: considerObjectFile_eq)
        with Cons False show ?thesis by simp
      qed
    qed
  qed
  then show "scan gs fs st = st"
    and "\<forall>f\<in>set fs. f \<notin> set (includedObjectFiles st) \<longrightarrow>
           set (unresolvedSymbols st) \<inter> set (defined (gs f)) = {}"
    by simp_all
qed

lemma loop_body_included:
  "\<exists>new. includedObjectFiles (loop_body gs fs st) = includedObjectFiles st @ new \<and>
     set new \<subseteq> set fs - set (includedObjectFiles st) \<and>
     (loopAgain (loop_body gs fs st) \<longleftrightarrow> new \<noteq> [])"
  using scan_included [of gs fs "st\<lparr>loopAgain := False\<rparr>"] by (simp add: loop_body_def)

lemma loopAgain_iff:
  "loopAgain (loop_body gs fs st) \<longleftrightarrow>
     includedObjectFiles (loop_body gs fs st) \<noteq> includedObjectFiles st"
  using loop_body_included [of gs fs st] by auto

lemma loop_body_measure:
  assumes "loopAgain (loop_body gs fs st)"
  shows "card (set fs - set (includedObjectFiles (loop_body gs fs st)))
       < card (set fs - set (includedObjectFiles st))"
proof -
  from loop_body_included [of gs fs st] assms obtain new where
    new: "includedObjectFiles (loop_body gs fs st) = includedObjectFiles st @ new"
      "set new \<subseteq> set fs - set (includedObjectFiles st)" "new \<noteq> []"
    by auto
  then obtain f where "f \<in> set new" by (cases new) auto
  with new(2) have "f \<in> set fs - set (includedObjectFiles st)"
    "f \<notin> set fs - set (includedObjectFiles (loop_body gs fs st))"
    by (auto simp: new(1))
  then have "set fs - set (includedObjectFiles (loop_body gs fs st))
      \<subset> set fs - set (includedObjectFiles st)"
    by (auto simp: new(1))
  then show ?thesis
    by (intro psubset_card_mono) simp_all
qed

subsection \<open>The loop returns\<close>

lemma resolution_loop_terminates:
  assumes "loopAgain st"
  shows "\<exists>n. resolution_loop gs fs st = Some ((loop_body gs fs ^^ Suc n) st) \<and>
           \<not> loopAgain ((loop_body gs fs ^^ Suc n) st) \<and>
           (\<forall>k<n. loopAgain ((loop_body gs fs ^^ Suc k) st))"
  using assms
proof (induction "card (set fs - set (includedObjectFiles st))" arbitrary: st rule: less_induct)
  case less
  let ?st1 = "loop_body gs fs st"
  have unfold: "resolution_loop gs fs st = resolution_loop gs fs ?st1"
    using less.prems by (subst resolution_loop.simps) simp
  show ?case
  proof (cases "loopAgain ?st1")
    case False
    then have "resolution_loop gs fs st = Some ?st1"
      unfolding unfold by (subst resolution_loop.simps) simp
    with False show ?thesis by (intro exI [of _ 0]) simp
  next
    case True
    from less.hyps [OF loop_body_measure [OF True] True] obtain n where
      n: "resolution_loop gs fs ?st1 = Some ((loop_body gs fs ^^ Suc n) ?st1)"
        "\<not> loopAgain ((loop_body gs fs ^^ Suc n) ?st1)"
        "\<forall>k<n. loopAgain ((loop_body gs fs ^^ Suc k) ?st1)"
      by blast
    have shift: "(loop_body gs fs ^^ Suc k) ?st1 = (loop_body gs fs ^^ Suc (Suc k)) st" for k
      by (simp add: funpow_swap1)
    have "\<forall>k<Suc n. loopAgain ((loop_body gs fs ^^ Suc k) st)"
    proof (intro allI impI)
      fix k assume "k < Suc n"
      then show "loopAgain ((loop_body gs fs ^^ Suc k) st)"
        using True n(3) shift by (cases k) auto
    qed
    with n(1,2) unfold shift show ?thesis
      by (intro exI [of _ "Suc n"]) simp
  qed
qed

lemma funpow_invariant:
  assumes "P st" "\<And>s. P s \<Longrightarrow> P (f s)"
  shows "P ((f ^^ n) st)"
  using assms by (induction n) simp_all

lemma resolution_loop_fixed_point:
  assumes "loopAgain st" "P st" "\<And>s. P s \<Longrightarrow> P (loop_body gs fs s)"
  shows "\<exists>st'. resolution_loop gs fs st = Some st' \<and> P st' \<and>
           (\<forall>f\<in>set fs. f \<notin> set (includedObjectFiles st') \<longrightarrow>
              set (unresolvedSymbols st') \<inter> set (defined (gs f)) = {})"
proof -
  from resolution_loop_terminates [OF assms(1), of gs fs] obtain n where
    n: "resolution_loop gs fs st = Some ((loop_body gs fs ^^ Suc n) st)"
      "\<not> loopAgain ((loop_body gs fs ^^ Suc n) st)"
    by blast
  let ?s = "(loop_body gs fs ^^ n) st"
  let ?st' = "loop_body gs fs ?s"
  have st': "(loop_body gs fs ^^ Suc n) st = ?st'" by simp
  have P: "P ?st'"
    using funpow_invariant [of P st "loop_body gs fs" "Suc n"] assms(2,3) by simp
  have quiet: "\<not> loopAgain (scan gs fs (?s\<lparr>loopAgain := False\<rparr>))"
    using n(2) by (simp add: loop_body_def)
  from scan_nothing_new [OF quiet] have "?st' = ?s\<lparr>loopAgain := False\<rparr>"
    and "\<forall>f\<in>set fs. f \<notin> set (includedObjectFiles (?s\<lparr>loopAgain := False\<rparr>)) \<longrightarrow>
           set (unresolvedSymbols (?s\<lparr>loopAgain := False\<rparr>)) \<inter> set (defined (gs f)) = {}"
    by (simp_all add: loop_body_def)
  then have "\<forall>f\<in>set fs. f \<notin> set (includedObjectFiles ?st') \<longrightarrow>
           set (unresolvedSymbols ?st') \<inter> set (defined (gs f)) = {}"
    by simp
  with n(1) P show ?thesis
    unfolding st' by blast
qed

subsection \<open>What a scan preserves\<close>

lemma scan_sound:
  assumes "set fs' \<subseteq> set fs"
    "set (unresolvedSymbols st) \<subseteq> reachable gs fs entry"
    "\<forall>f\<in>set (includedObjectFiles st).
       f \<in> set fs \<and> set (defined (gs f)) \<inter> reachable gs fs entry \<noteq> {}"
  shows "set (unresolvedSymbols (scan gs fs' st)) \<subseteq> reachable gs fs entry \<and>
    (\<forall>f\<in>set (includedObjectFiles (scan gs fs' st)).
       f \<in> set fs \<and> set (defined (gs f)) \<inter> reachable gs fs entry \<noteq> {})"
  using assms
proof (induction fs' arbitrary: st)
  case Nil
  then show ?case by simp
next
  case (Cons f fs')
  have sub: "set fs' \<subseteq> set fs" using Cons.prems(1) by simp
  show ?case
  proof (cases "f \<notin> set (includedObjectFiles st) \<and>
      set (unresolvedSymbols st) \<inter> set (defined (gs f)) \<noteq> {}")
    case False
    then have skip: "scan gs (f # fs') st = scan gs fs' st"
      by (auto simp: considerObjectFile_eq)
    from Cons.IH [OF sub Cons.prems(2) Cons.prems(3)] show ?thesis
      unfolding skip .
  next
    case True
    let ?st1 = "st\<lparr>unresolvedSymbols := foldl Set_add
          (foldl Set_delete (unresolvedSymbols st) (defined (gs f))) (undefined_sym (gs f)),
        includedObjectFiles := Set_add (includedObjectFiles st) f, loopAgain := True\<rparr>"
    have eq: "scan gs (f # fs') st = scan gs fs' ?st1"
      using True by (simp add: considerObjectFile_eq)
    from True obtain s where s: "s \<in> set (unresolvedSymbols st)" "s \<in> set (defined (gs f))"
      by auto
    have f: "f \<in> set fs" using Cons.prems(1) by simp
    have r: "s \<in> reachable gs fs entry" using s(1) Cons.prems(2) by auto
    have u1: "set (unresolvedSymbols ?st1) =
        set (unresolvedSymbols st) - set (defined (gs f)) \<union> set (undefined_sym (gs f))"
      and i1: "set (includedObjectFiles ?st1) = insert f (set (includedObjectFiles st))"
      by simp_all
    have "set (undefined_sym (gs f)) \<subseteq> reachable gs fs entry"
      using reachable.reference [OF r f s(2)] by blast
    then have 1: "set (unresolvedSymbols ?st1) \<subseteq> reachable gs fs entry"
      unfolding u1 using Cons.prems(2) by blast
    have 2: "\<forall>g\<in>set (includedObjectFiles ?st1).
        g \<in> set fs \<and> set (defined (gs g)) \<inter> reachable gs fs entry \<noteq> {}"
      unfolding i1 using Cons.prems(3) f r s(2) by blast
    from Cons.IH [OF sub 1 2] show ?thesis
      unfolding eq .
  qed
qed

lemma scan_complete:
  assumes "set entry \<subseteq> set (unresolvedSymbols st) \<union>
      (\<Union>g\<in>set (includedObjectFiles st). set (defined (gs g)))"
    "\<forall>f\<in>set (includedObjectFiles st). set (undefined_sym (gs f)) \<subseteq>
       set (unresolvedSymbols st) \<union> (\<Union>g\<in>set (includedObjectFiles st). set (defined (gs g)))"
  shows "set entry \<subseteq> set (unresolvedSymbols (scan gs fs st)) \<union>
      (\<Union>g\<in>set (includedObjectFiles (scan gs fs st)). set (defined (gs g))) \<and>
    (\<forall>f\<in>set (includedObjectFiles (scan gs fs st)). set (undefined_sym (gs f)) \<subseteq>
       set (unresolvedSymbols (scan gs fs st)) \<union>
       (\<Union>g\<in>set (includedObjectFiles (scan gs fs st)). set (defined (gs g))))"
  using assms
proof (induction fs arbitrary: st)
  case Nil
  then show ?case by simp
next
  case (Cons f fs)
  show ?case
  proof (cases "f \<notin> set (includedObjectFiles st) \<and>
      set (unresolvedSymbols st) \<inter> set (defined (gs f)) \<noteq> {}")
    case False
    then have skip: "scan gs (f # fs) st = scan gs fs st"
      by (auto simp: considerObjectFile_eq)
    from Cons.IH [OF Cons.prems] show ?thesis
      unfolding skip .
  next
    case True
    let ?st1 = "st\<lparr>unresolvedSymbols := foldl Set_add
          (foldl Set_delete (unresolvedSymbols st) (defined (gs f))) (undefined_sym (gs f)),
        includedObjectFiles := Set_add (includedObjectFiles st) f, loopAgain := True\<rparr>"
    have eq: "scan gs (f # fs) st = scan gs fs ?st1"
      using True by (simp add: considerObjectFile_eq)
    have u1: "set (unresolvedSymbols ?st1) =
        set (unresolvedSymbols st) - set (defined (gs f)) \<union> set (undefined_sym (gs f))"
      and i1: "set (includedObjectFiles ?st1) = insert f (set (includedObjectFiles st))"
      by simp_all
    have 1: "set entry \<subseteq> set (unresolvedSymbols ?st1) \<union>
        (\<Union>g\<in>set (includedObjectFiles ?st1). set (defined (gs g)))"
      unfolding u1 i1 using Cons.prems(1) by blast
    have 2: "\<forall>h\<in>set (includedObjectFiles ?st1). set (undefined_sym (gs h)) \<subseteq>
        set (unresolvedSymbols ?st1) \<union>
        (\<Union>g\<in>set (includedObjectFiles ?st1). set (defined (gs g)))"
    proof
      fix h assume h: "h \<in> set (includedObjectFiles ?st1)"
      show "set (undefined_sym (gs h)) \<subseteq> set (unresolvedSymbols ?st1) \<union>
          (\<Union>g\<in>set (includedObjectFiles ?st1). set (defined (gs g)))"
      proof (cases "h = f")
        case True
        then show ?thesis unfolding u1 i1 by blast
      next
        case False
        with h have "h \<in> set (includedObjectFiles st)" by simp
        with Cons.prems(2) have "set (undefined_sym (gs h)) \<subseteq>
            set (unresolvedSymbols st) \<union> (\<Union>g\<in>set (includedObjectFiles st). set (defined (gs g)))"
          by blast
        then show ?thesis unfolding u1 i1 by blast
      qed
    qed
    from Cons.IH [OF 1 2] show ?thesis
      unfolding eq .
  qed
qed

lemma loop_body_sound:
  assumes "set (unresolvedSymbols st) \<subseteq> reachable gs fs entry \<and>
    (\<forall>f\<in>set (includedObjectFiles st).
       f \<in> set fs \<and> set (defined (gs f)) \<inter> reachable gs fs entry \<noteq> {})"
  shows "set (unresolvedSymbols (loop_body gs fs st)) \<subseteq> reachable gs fs entry \<and>
    (\<forall>f\<in>set (includedObjectFiles (loop_body gs fs st)).
       f \<in> set fs \<and> set (defined (gs f)) \<inter> reachable gs fs entry \<noteq> {})"
  unfolding loop_body_def using assms by (intro scan_sound) simp_all

lemma loop_body_complete:
  assumes "set entry \<subseteq> set (unresolvedSymbols st) \<union>
      (\<Union>g\<in>set (includedObjectFiles st). set (defined (gs g))) \<and>
    (\<forall>f\<in>set (includedObjectFiles st). set (undefined_sym (gs f)) \<subseteq>
       set (unresolvedSymbols st) \<union> (\<Union>g\<in>set (includedObjectFiles st). set (defined (gs g))))"
  shows "set entry \<subseteq> set (unresolvedSymbols (loop_body gs fs st)) \<union>
      (\<Union>g\<in>set (includedObjectFiles (loop_body gs fs st)). set (defined (gs g))) \<and>
    (\<forall>f\<in>set (includedObjectFiles (loop_body gs fs st)). set (undefined_sym (gs f)) \<subseteq>
       set (unresolvedSymbols (loop_body gs fs st)) \<union>
       (\<Union>g\<in>set (includedObjectFiles (loop_body gs fs st)). set (defined (gs g))))"
  unfolding loop_body_def using assms by (intro scan_complete) simp_all

lemma resolution_result:
  "\<exists>st. resolution_loop gs fs (initial_state entry) = Some st \<and>
     set (unresolvedSymbols st) \<subseteq> reachable gs fs entry \<and>
     (\<forall>f\<in>set (includedObjectFiles st).
        f \<in> set fs \<and> set (defined (gs f)) \<inter> reachable gs fs entry \<noteq> {}) \<and>
     set entry \<subseteq> set (unresolvedSymbols st) \<union>
        (\<Union>g\<in>set (includedObjectFiles st). set (defined (gs g))) \<and>
     (\<forall>f\<in>set (includedObjectFiles st). set (undefined_sym (gs f)) \<subseteq>
        set (unresolvedSymbols st) \<union> (\<Union>g\<in>set (includedObjectFiles st). set (defined (gs g)))) \<and>
     (\<forall>f\<in>set fs. f \<notin> set (includedObjectFiles st) \<longrightarrow>
        set (unresolvedSymbols st) \<inter> set (defined (gs f)) = {})"
proof -
  let ?P = "\<lambda>st. (set (unresolvedSymbols st) \<subseteq> reachable gs fs entry \<and>
     (\<forall>f\<in>set (includedObjectFiles st).
        f \<in> set fs \<and> set (defined (gs f)) \<inter> reachable gs fs entry \<noteq> {})) \<and>
     (set entry \<subseteq> set (unresolvedSymbols st) \<union>
        (\<Union>g\<in>set (includedObjectFiles st). set (defined (gs g))) \<and>
     (\<forall>f\<in>set (includedObjectFiles st). set (undefined_sym (gs f)) \<subseteq>
        set (unresolvedSymbols st) \<union> (\<Union>g\<in>set (includedObjectFiles st). set (defined (gs g)))))"
  have start: "?P (initial_state entry)"
    by (auto simp: initial_state_def intro: reachable.entry)
  have step: "?P (loop_body gs fs s)" if "?P s" for s
    using that loop_body_sound [of s gs fs entry] loop_body_complete [of entry s gs fs]
    by blast
  have "loopAgain (initial_state entry)"
    by (simp add: initial_state_def)
  from resolution_loop_fixed_point [of "initial_state entry" ?P gs fs, OF this start step]
  show ?thesis by blast
qed

subsection \<open>The example session\<close>

lemma reachable_example:
  "reachable example_symbols [''C'', ''B'', ''A''] [''main''] \<subseteq> {''main'', ''helper'', ''printf''}"
proof
  fix s assume "s \<in> reachable example_symbols [''C'', ''B'', ''A''] [''main'']"
  then show "s \<in> {''main'', ''helper'', ''printf''}"
    by induction (auto simp: example_symbols_def split: if_splits)
qed

lemma example_linked: "getObjectFilesToLink example_symbols [''C'', ''B'', ''A''] [''main''] = Some [''A'', ''B'']"
  by code_simp

lemma example_passes:
  "(loop_body example_symbols [''C'', ''B'', ''A''] ^^ 0) (initial_state [''main'']) =
     \<lparr>loopAgain = True, includedObjectFiles = [], unresolvedSymbols = [''main'']\<rparr>"
  "(loop_body example_symbols [''C'', ''B'', ''A''] ^^ 1) (initial_state [''main'']) =
     \<lparr>loopAgain = True, includedObjectFiles = [''A''], unresolvedSymbols = [''helper'']\<rparr>"
  "(loop_body example_symbols [''C'', ''B'', ''A''] ^^ 2) (initial_state [''main'']) =
     \<lparr>loopAgain = True, includedObjectFiles = [''A'', ''B''], unresolvedSymbols = [''printf'']\<rparr>"
  "(loop_body example_symbols [''C'', ''B'', ''A''] ^^ 3) (initial_state [''main'']) =
     \<lparr>loopAgain = False, includedObjectFiles = [''A'', ''B''], unresolvedSymbols = [''printf'']\<rparr>"
  by code_simp+

lemma example_final_state:
  "resolution_loop example_symbols [''C'', ''B'', ''A''] (initial_state [''main'']) =
     Some \<lparr>loopAgain = False, includedObjectFiles = [''A'', ''B''],
            unresolvedSymbols = [''printf'']\<rparr>"
  by code_simp

subsection \<open>Which files are linked\<close>

text \<open>
  C1. Let \<open>a\<close> be the candidate file that defines \<open>main\<close>, with an undefined reference to
  \<open>helper\<close>, and \<open>b\<close> the candidate file that defines \<open>helper\<close> (no other candidate
  defines either symbol), in any order and among any other candidates.  Let \<open>c\<close> be a
  file none of whose defined symbols is transitively required by the entry symbols.  Then
  resolving the entry symbols \<open>[main]\<close> returns a file list that holds \<open>a\<close> and \<open>b\<close> and
  does not hold \<open>c\<close>.
\<close>

theorem link_main_helper:
  assumes "a \<in> set objectFiles" "b \<in> set objectFiles"
    and "''main'' \<in> set (defined (getSymbols a))"
    and "''helper'' \<in> set (undefined_sym (getSymbols a))"
    and "''helper'' \<in> set (defined (getSymbols b))"
    and "\<forall>f\<in>set objectFiles. ''main'' \<in> set (defined (getSymbols f)) \<longrightarrow> f = a"
    and "\<forall>f\<in>set objectFiles. ''helper'' \<in> set (defined (getSymbols f)) \<longrightarrow> f = b"
    and "set (defined (getSymbols c)) \<inter> reachable getSymbols objectFiles [''main''] = {}"
  shows "\<exists>linked. getObjectFilesToLink getSymbols objectFiles [''main''] = Some linked \<and>
           a \<in> set linked \<and> b \<in> set linked \<and> c \<notin> set linked"
proof -
  from resolution_result [of getSymbols objectFiles "[''main'']"] obtain st where
    st: "resolution_loop getSymbols objectFiles (initial_state [''main'']) = Some st"
    and sound: "\<forall>f\<in>set (includedObjectFiles st). f \<in> set objectFiles \<and>
        set (defined (getSymbols f)) \<inter> reachable getSymbols objectFiles [''main''] \<noteq> {}"
    and entry: "set [''main''] \<subseteq> set (unresolvedSymbols st) \<union>
        (\<Union>g\<in>set (includedObjectFiles st). set (defined (getSymbols g)))"
    and refs: "\<forall>f\<in>set (includedObjectFiles st). set (undefined_sym (getSymbols f)) \<subseteq>
        set (unresolvedSymbols st) \<union>
        (\<Union>g\<in>set (includedObjectFiles st). set (defined (getSymbols g)))"
    and fixed: "\<forall>f\<in>set objectFiles. f \<notin> set (includedObjectFiles st) \<longrightarrow>
        set (unresolvedSymbols st) \<inter> set (defined (getSymbols f)) = {}"
    by blast
  have a: "a \<in> set (includedObjectFiles st)"
  proof (rule ccontr)
    assume out: "a \<notin> set (includedObjectFiles st)"
    with fixed assms(1,3) have "''main'' \<notin> set (unresolvedSymbols st)" by blast
    with entry obtain g where "g \<in> set (includedObjectFiles st)"
      "''main'' \<in> set (defined (getSymbols g))"
      by auto
    with sound assms(6) have "g = a" by blast
    with \<open>g \<in> set (includedObjectFiles st)\<close> out show False by simp
  qed
  have b: "b \<in> set (includedObjectFiles st)"
  proof (rule ccontr)
    assume out: "b \<notin> set (includedObjectFiles st)"
    with fixed assms(2,5) have "''helper'' \<notin> set (unresolvedSymbols st)" by blast
    with refs a assms(4) obtain g where "g \<in> set (includedObjectFiles st)"
      "''helper'' \<in> set (defined (getSymbols g))"
      by blast
    with sound assms(7) have "g = b" by blast
    with \<open>g \<in> set (includedObjectFiles st)\<close> out show False by simp
  qed
  have c: "c \<notin> set (includedObjectFiles st)"
    using sound assms(8) by blast
  from st a b c show ?thesis
    by (simp add: getObjectFilesToLink_def)
qed

text \<open>The example session, with the candidates listed as \<open>C\<close>, \<open>B\<close>, \<open>A\<close>.\<close>

theorem link_main_helper_witness:
  "set (defined (example_symbols ''C'')) \<inter> reachable example_symbols [''C'', ''B'', ''A''] [''main''] = {} \<and>
   (\<exists>linked. getObjectFilesToLink example_symbols [''C'', ''B'', ''A''] [''main''] = Some linked \<and>
      ''A'' \<in> set linked \<and> ''B'' \<in> set linked \<and> ''C'' \<notin> set linked)"
proof -
  have unrelated: "set (defined (example_symbols ''C'')) \<inter> reachable example_symbols [''C'', ''B'', ''A''] [''main''] = {}"
    using reachable_example by (auto simp: example_symbols_def)
  have "\<exists>linked. getObjectFilesToLink example_symbols [''C'', ''B'', ''A''] [''main''] = Some linked \<and>
      ''A'' \<in> set linked \<and> ''B'' \<in> set linked \<and> ''C'' \<notin> set linked"
  proof (rule link_main_helper [OF _ _ _ _ _ _ _ unrelated])
    show "''A'' \<in> set [''C'', ''B'', ''A'']" "''B'' \<in> set [''C'', ''B'', ''A'']"
      by simp_all
    show "''main'' \<in> set (defined (example_symbols ''A''))"
      "''helper'' \<in> set (undefined_sym (example_symbols ''A''))"
      "''helper'' \<in> set (defined (example_symbols ''B''))"
      by (simp_all add: example_symbols_def)
    show "\<forall>f\<in>set [''C'', ''B'', ''A'']. ''main'' \<in> set (defined (example_symbols f)) \<longrightarrow> f = ''A''"
      "\<forall>f\<in>set [''C'', ''B'', ''A'']. ''helper'' \<in> set (defined (example_symbols f)) \<longrightarrow> f = ''B''"
      by (simp_all add: example_symbols_def)
  qed
  with unrelated show ?thesis ..
qed

subsection \<open>Termination\<close>

text \<open>
  C8. For every list of candidate files and every list of entry symbols the resolution
  loop terminates: there is a number \<open>n\<close> such that the loop returns the state after
  \<open>n + 1\<close> scans, the last of these scans included no file, and each of the \<open>n\<close> scans
  before it included at least one.  So the loop ends exactly with the first full scan that
  includes nothing new; the set of unresolved symbols is not what ends it, and there are
  sessions in which it is not empty when the loop returns.
\<close>

theorem resolution_loop_exit:
  "(\<exists>n. resolution_loop getSymbols objectFiles (initial_state entrySymbols) =
          Some ((loop_body getSymbols objectFiles ^^ Suc n) (initial_state entrySymbols)) \<and>
        includedObjectFiles ((loop_body getSymbols objectFiles ^^ Suc n) (initial_state entrySymbols)) =
          includedObjectFiles ((loop_body getSymbols objectFiles ^^ n) (initial_state entrySymbols)) \<and>
        (\<forall>k<n. includedObjectFiles ((loop_body getSymbols objectFiles ^^ Suc k) (initial_state entrySymbols)) \<noteq>
          includedObjectFiles ((loop_body getSymbols objectFiles ^^ k) (initial_state entrySymbols)))) \<and>
   (\<exists>gs fs es st. resolution_loop gs fs (initial_state es) = Some st \<and> unresolvedSymbols st \<noteq> [])"
proof (rule conjI)
  have "loopAgain (initial_state entrySymbols)"
    by (simp add: initial_state_def)
  from resolution_loop_terminates [OF this, of getSymbols objectFiles]
  show "\<exists>n. resolution_loop getSymbols objectFiles (initial_state entrySymbols) =
          Some ((loop_body getSymbols objectFiles ^^ Suc n) (initial_state entrySymbols)) \<and>
        includedObjectFiles ((loop_body getSymbols objectFiles ^^ Suc n) (initial_state entrySymbols)) =
          includedObjectFiles ((loop_body getSymbols objectFiles ^^ n) (initial_state entrySymbols)) \<and>
        (\<forall>k<n. includedObjectFiles ((loop_body getSymbols objectFiles ^^ Suc k) (initial_state entrySymbols)) \<noteq>
          includedObjectFiles ((loop_body getSymbols objectFiles ^^ k) (initial_state entrySymbols)))"
    by (simp add: loopAgain_iff)
next
  have "resolution_loop example_symbols [''C'', ''B'', ''A''] (initial_state [''main'']) =
      Some \<lparr>loopAgain = False, includedObjectFiles = [''A'', ''B''],
             unresolvedSymbols = [''printf'']\<rparr>"
    by (rule example_final_state)
  then have "resolution_loop example_symbols [''C'', ''B'', ''A''] (initial_state [''main'']) =
      Some \<lparr>loopAgain = False, includedObjectFiles = [''A'', ''B''],
             unresolvedSymbols = [''printf'']\<rparr> \<and>
      unresolvedSymbols \<lparr>loopAgain = False, includedObjectFiles = [''A'', ''B''],
             unresolvedSymbols = [''printf'']\<rparr> \<noteq> []"
    by simp
  then show "\<exists>gs fs es st. resolution_loop gs fs (initial_state es) = Some st \<and>
      unresolvedSymbols st \<noteq> []"
    by blast
qed

text \<open>
  In the example session the loop makes three scans: the first includes \<open>A\<close>, the second
  \<open>B\<close>, the third nothing, and \<open>printf\<close> is still unresolved when it returns.
\<close>

theorem resolution_loop_exit_witness:
  "resolution_loop example_symbols [''C'', ''B'', ''A''] (initial_state [''main'']) =
     Some \<lparr>loopAgain = False, includedObjectFiles = [''A'', ''B''],
            unresolvedSymbols = [''printf'']\<rparr> \<and>
   includedObjectFiles ((loop_body example_symbols [''C'', ''B'', ''A''] ^^ 3) (initial_state [''main''])) =
     includedObjectFiles ((loop_body example_symbols [''C'', ''B'', ''A''] ^^ 2) (initial_state [''main''])) \<and>
   includedObjectFiles ((loop_body example_symbols [''C'', ''B'', ''A''] ^^ 2) (initial_state [''main''])) \<noteq>
     includedObjectFiles ((loop_body example_symbols [''C'', ''B'', ''A''] ^^ 1) (initial_state [''main''])) \<and>
   includedObjectFiles ((loop_body example_symbols [''C'', ''B'', ''A''] ^^ 1) (initial_state [''main''])) \<noteq>
     includedObjectFiles ((loop_body example_symbols [''C'', ''B'', ''A''] ^^ 0) (initial_state [''main'']))"
proof -
  let ?pass = "\<lambda>k. (loop_body example_symbols [''C'', ''B'', ''A''] ^^ k) (initial_state [''main''])"
  from resolution_loop_exit [of example_symbols "[''C'', ''B'', ''A'']" "[''main'']"] obtain n where
    n: "resolution_loop example_symbols [''C'', ''B'', ''A''] (initial_state [''main'']) = Some (?pass (Suc n))"
      "includedObjectFiles (?pass (Suc n)) = includedObjectFiles (?pass n)"
      "\<forall>k<n. includedObjectFiles (?pass (Suc k)) \<noteq> includedObjectFiles (?pass k)"
    by blast
  have "n = 2"
  proof (rule ccontr)
    assume "n \<noteq> 2"
    then consider "n = 0" | "n = 1" | "2 < n" by linarith
    then show False
    proof cases
      case 1
      with n(2) example_passes(1,2) show False by simp
    next
      case 2
      with n(2) example_passes(2,3) show False by (simp add: numeral_2_eq_2)
    next
      case 3
      with n(3) have "includedObjectFiles (?pass (Suc 2)) \<noteq> includedObjectFiles (?pass 2)"
        by blast
      with example_passes(3,4) show False by (simp add: numeral_3_eq_3)
    qed
  qed
  with n(1) example_passes show ?thesis
    by (simp add: numeral_3_eq_3)
qed

section \<open>The runtime array: memory, capacity and the operations\<close>

subsection \<open>Filling and copying inside a block\<close>

lemma fill_n_Some:
  "p + n \<le> length b \<Longrightarrow>
   fill_n b p n v = Some (take p b @ replicate n (Some v) @ drop (p + n) b)"
proof (induction n arbitrary: b p)
  case 0
  then show ?case by simp
next
  case (Suc n)
  then have lt: "p < length b" by simp
  then have t: "take (Suc p) (b[p := Some v]) = take p b @ [Some v]"
    by (simp add: take_Suc_conv_app_nth)
  have "fill_n (b[p := Some v]) (Suc p) n v
      = Some (take (Suc p) (b[p := Some v]) @ replicate n (Some v) @
              drop (Suc p + n) (b[p := Some v]))"
    using Suc.prems by (intro Suc.IH) simp
  then show ?case using lt by (simp add: t)
qed

lemma fill_n_bounds: "fill_n b p n v = Some b' \<Longrightarrow> 0 < n \<Longrightarrow> p + n \<le> length b"
proof (induction n arbitrary: b p)
  case 0
  then show ?case by simp
next
  case (Suc n)
  from Suc.prems(1) have lt: "p < length b"
    and rec: "fill_n (b[p := Some v]) (Suc p) n v = Some b'"
    by (auto split: if_splits)
  show ?case
  proof (cases "n = 0")
    case True
    with lt show ?thesis by simp
  next
    case False
    with Suc.IH [OF rec] show ?thesis by simp
  qed
qed

lemma copy_in_Some:
  "d + length xs \<le> length b \<Longrightarrow>
   copy_in xs b d = Some (take d b @ map Some xs @ drop (d + length xs) b)"
proof (induction xs arbitrary: b d)
  case Nil
  then show ?case by simp
next
  case (Cons x xs)
  then have lt: "d < length b" by simp
  then have t: "take (Suc d) (b[d := Some x]) = take d b @ [Some x]"
    by (simp add: take_Suc_conv_app_nth)
  have "copy_in xs (b[d := Some x]) (Suc d)
      = Some (take (Suc d) (b[d := Some x]) @ map Some xs @
              drop (Suc d + length xs) (b[d := Some x]))"
    using Cons.prems by (intro Cons.IH) simp
  then show ?case using lt by (simp add: t)
qed

lemma copy_in_bounds: "copy_in xs b d = Some b' \<Longrightarrow> xs \<noteq> [] \<Longrightarrow> d + length xs \<le> length b"
proof (induction xs arbitrary: b d)
  case Nil
  then show ?case by simp
next
  case (Cons x xs)
  from Cons.prems(1) have lt: "d < length b"
    and rec: "copy_in xs (b[d := Some x]) (Suc d) = Some b'"
    by (auto split: if_splits)
  show ?case
  proof (cases "xs = []")
    case True
    with lt show ?thesis by simp
  next
    case False
    with Cons.IH [OF rec] show ?thesis by simp
  qed
qed

lemma copy_eq:
  "s + n \<le> length b \<Longrightarrow> d + n \<le> length b \<Longrightarrow>
   copy b s n d = Some (take d b @ take n (drop s b) @ drop (d + n) b)"
  by (simp add: copy_def)

lemma copy_length: "copy b s n d = Some b' \<Longrightarrow> length b' = length b"
  by (auto simp: copy_def split: if_splits)

lemma copy_bounds:
  "copy b s n d = Some b' \<Longrightarrow> 0 < n \<Longrightarrow> s + n \<le> length b \<and> d + n \<le> length b"
  by (auto simp: copy_def split: if_splits)

subsection \<open>Allocation\<close>

lemma sizeof_bounds: "0 < unat (sizeof t)" "unat (sizeof t) \<le> 8"
  by (cases t; simp)+

lemma fits_enough: "m \<le> capacity a \<Longrightarrow> fits mem m a"
  by (simp add: fits_def)

lemma fits_small:
  assumes "growth_policy (unat (capacity a)) (unat m) \<le> 536870911"
  shows "fits mem m a"
proof -
  have "growth_policy (unat (capacity a)) (unat m) * unat (sizeof (sizeof_T mem))
      \<le> 536870911 * 8"
    using assms sizeof_bounds(2) [of "sizeof_T mem"] by (rule mult_le_mono)
  then show ?thesis
    by (simp add: fits_def)
qed

lemma realloc_fitting:
  assumes "unat cap * unat (sizeof (sizeof_T mem)) < 4294967296"
  shows "realloc mem ptr (cap * sizeof (sizeof_T mem)) =
     (if grants mem (unat cap * unat (sizeof (sizeof_T mem)))
      then Some (take (unat cap) (block_of ptr) @
                 replicate (unat cap - length (block_of ptr)) None)
      else None)"
proof -
  have "unat (cap * sizeof (sizeof_T mem)) = unat cap * unat (sizeof (sizeof_T mem))"
    using assms by (simp add: unat_word_ariths)
  then show ?thesis
    using sizeof_bounds(1) [of "sizeof_T mem"] by (simp add: realloc_def Let_def)
qed

subsection \<open>Reserving capacity\<close>

lemma ensureCapacity_enough:
  "m \<le> capacity a \<Longrightarrow> ensureCapacity mem m a = (Inr (), a)"
  by (simp add: ensureCapacity_def)

lemma ensureCapacity_exceeded:
  "capacity a < m \<Longrightarrow> INT32_MAX < m \<Longrightarrow> ensureCapacity mem m a = (Inl CapacityExceeded, a)"
  by (simp add: ensureCapacity_def)

lemma ensureCapacity_grow:
  assumes "capacity a < m" "m \<le> INT32_MAX"
  shows "\<exists>nc. unat nc = growth_policy (unat (capacity a)) (unat m) \<and> m \<le> nc \<and> nc \<le> INT32_MAX \<and>
           ensureCapacity mem m a =
             (case realloc mem (elements a) (nc * sizeof (sizeof_T mem)) of
                None \<Rightarrow> (Inl OutOfMemory, a)
              | Some b \<Rightarrow> (Inr (), a\<lparr>elements := Some b, capacity := nc\<rparr>))"
proof -
  define c1 where "c1 = (if capacity a = 0 then DEFAULT_CAPACITY else capacity a * CAPACITY_GROW_FACTOR)"
  define c2 where "c2 = (if c1 < m then m else c1)"
  define nc where "nc = (if c2 > INT32_MAX then INT32_MAX else c2)"
  have cap: "unat (capacity a) < 2147483647" and m: "unat m \<le> 2147483647"
    using assms by (simp_all add: INT32_MAX_def word_less_nat_alt word_le_nat_alt)
  have u1: "unat c1 = (if capacity a = 0 then 16 else 2 * unat (capacity a))"
    using cap by (simp add: c1_def DEFAULT_CAPACITY_def CAPACITY_GROW_FACTOR_def unat_word_ariths)
  have u2: "unat c2 = max (unat m) (unat c1)"
    by (simp add: c2_def word_less_nat_alt max_def)
  have u3: "unat nc = min 2147483647 (unat c2)"
    by (simp add: nc_def INT32_MAX_def word_less_nat_alt min_def)
  have g: "unat nc = growth_policy (unat (capacity a)) (unat m)"
    by (simp add: growth_policy_def u1 u2 u3 unat_eq_zero mult.commute)
  have le: "m \<le> nc" "nc \<le> INT32_MAX"
    using m by (simp_all add: word_le_nat_alt u3 u2 INT32_MAX_def)
  have "ensureCapacity mem m a =
      (case allocateElements mem nc (elements a) of
         Inl e \<Rightarrow> (Inl e, a)
       | Inr b \<Rightarrow> (Inr (), a\<lparr>elements := Some b, capacity := nc\<rparr>))"
  proof -
    have "\<not> m \<le> capacity a" "\<not> INT32_MAX < m"
      using assms by simp_all
    then show ?thesis
      unfolding ensureCapacity_def Let_def c1_def c2_def nc_def by (simp only: if_False)
  qed
  then show ?thesis
    using g le
    by (intro exI [of _ nc]) (simp add: allocateElements_def not_less split: option.splits)
qed

lemma ensureCapacity_cases:
  obtains (enough) "m \<le> capacity a" "ensureCapacity mem m a = (Inr (), a)"
  | (exceeded) "capacity a < m" "INT32_MAX < m"
      "ensureCapacity mem m a = (Inl CapacityExceeded, a)"
  | (no_memory) "capacity a < m" "m \<le> INT32_MAX"
      "ensureCapacity mem m a = (Inl OutOfMemory, a)"
  | (realloc) nc b where "capacity a < m" "m \<le> nc" "nc \<le> INT32_MAX"
      "unat nc = growth_policy (unat (capacity a)) (unat m)"
      "ensureCapacity mem m a = (Inr (), a\<lparr>elements := Some b, capacity := nc\<rparr>)"
      "fits mem m a \<Longrightarrow>
         b = take (unat nc) (block_of (elements a)) @
             replicate (unat nc - length (block_of (elements a))) None"
proof (cases "m \<le> capacity a")
  case True
  then show ?thesis using enough ensureCapacity_enough by blast
next
  case False
  then have lt: "capacity a < m" by simp
  show ?thesis
  proof (cases "INT32_MAX < m")
    case True
    then show ?thesis using exceeded lt ensureCapacity_exceeded by blast
  next
    case False
    then have le: "m \<le> INT32_MAX" by simp
    from ensureCapacity_grow [OF lt le, of mem] obtain nc where
      nc: "unat nc = growth_policy (unat (capacity a)) (unat m)" "m \<le> nc" "nc \<le> INT32_MAX"
      and eq: "ensureCapacity mem m a =
             (case realloc mem (elements a) (nc * sizeof (sizeof_T mem)) of
                None \<Rightarrow> (Inl OutOfMemory, a)
              | Some b \<Rightarrow> (Inr (), a\<lparr>elements := Some b, capacity := nc\<rparr>))"
      by blast
    show ?thesis
    proof (cases "realloc mem (elements a) (nc * sizeof (sizeof_T mem))")
      case None
      with eq lt le show ?thesis using no_memory by simp
    next
      case (Some b)
      have "b = take (unat nc) (block_of (elements a)) @
          replicate (unat nc - length (block_of (elements a))) None" if "fits mem m a"
      proof -
        from that lt have "unat nc * unat (sizeof (sizeof_T mem)) < 4294967296"
          by (auto simp: fits_def nc(1))
        from realloc_fitting [OF this, of "elements a"] Some show ?thesis
          by (simp split: if_splits)
      qed
      with eq nc lt Some show ?thesis using realloc by simp
    qed
  qed
qed

lemma ensureCapacity_Inl:
  assumes "ensureCapacity mem m a = (Inl e, a')"
  shows "a' = a \<and> capacity a < m \<and>
         (e = CapacityExceeded \<and> INT32_MAX < m \<or> e = OutOfMemory \<and> m \<le> INT32_MAX)"
  using assms by (cases rule: ensureCapacity_cases [where m = m and a = a and mem = mem]) auto

lemma block_of_simps [simp]: "block_of None = []" "block_of (Some b) = b"
  by (simp_all add: block_of_def)

lemma same_block_simps [simp]: "same_block None b = None" "same_block (Some c) b = Some b"
  by (simp_all add: same_block_def)

lemma same_block_eq_None [simp]: "same_block p b = None \<longleftrightarrow> p = None"
  by (cases p) simp_all

lemma block_of_same_block:
  "length b = length (block_of p) \<Longrightarrow> block_of (same_block p b) = b"
  by (cases p) simp_all


lemma ensureCapacity_Inr:
  assumes "inv_A a" "ensureCapacity mem m a = (Inr u, a')" "fits mem m a"
  shows "inv_A a'" "length_A a' = length_A a" "m \<le> capacity a'" "capacity a \<le> capacity a'"
    "take (unat (capacity a)) (block_of (elements a')) = block_of (elements a)"
proof -
  have "inv_A a' \<and> length_A a' = length_A a \<and> m \<le> capacity a' \<and> capacity a \<le> capacity a' \<and>
    take (unat (capacity a)) (block_of (elements a')) = block_of (elements a)"
  proof (cases rule: ensureCapacity_cases [where m = m and a = a and mem = mem])
    case enough
    with assms show ?thesis by (auto simp: inv_A_def)
  next
    case exceeded
    with assms show ?thesis by simp
  next
    case no_memory
    with assms show ?thesis by simp
  next
    case (realloc nc b)
    have len: "length (block_of (elements a)) = unat (capacity a)"
      and l: "length_A a \<le> capacity a"
      and ini: "list_all (\<lambda>s. s \<noteq> None) (take (unat (length_A a)) (block_of (elements a)))"
      using assms(1) by (simp_all add: inv_A_def)
    have c: "unat (capacity a) < unat nc" "capacity a \<le> nc" "nc \<noteq> 0"
      using realloc(1,2) by (auto simp: word_less_nat_alt word_le_nat_alt)
    have a': "a' = a\<lparr>elements := Some (block_of (elements a) @
                 replicate (unat nc - unat (capacity a)) None), capacity := nc\<rparr>"
      using assms(2) realloc(5) realloc(6) [OF assms(3)] len c by simp
    have "unat (length_A a) \<le> unat (capacity a)"
      using l by (simp add: word_le_nat_alt)
    then have "inv_A a'"
      using c l len ini realloc(1) by (simp add: a' inv_A_def)
    then show ?thesis
      using c realloc(2) len by (simp add: a')
  qed
  then show "inv_A a'" "length_A a' = length_A a" "m \<le> capacity a'" "capacity a \<le> capacity a'"
    "take (unat (capacity a)) (block_of (elements a')) = block_of (elements a)"
    by simp_all
qed

lemma ensureCapacity_contents:
  assumes "inv_A a" "ensureCapacity mem m a = (Inr u, a')" "fits mem m a"
  shows "take (unat (length_A a)) (block_of (elements a')) =
         take (unat (length_A a)) (block_of (elements a))"
proof -
  have "unat (length_A a) \<le> unat (capacity a)"
    using assms(1) by (simp add: inv_A_def word_le_nat_alt)
  then have "take (unat (length_A a)) (take (unat (capacity a)) (block_of (elements a'))) =
      take (unat (length_A a)) (block_of (elements a'))"
    by (simp add: min_def)
  then show ?thesis
    using ensureCapacity_Inr(5) [OF assms] by simp
qed

lemma inv_A_update:
  assumes "inv_A a" "length b = length (block_of (elements a))" "l \<le> capacity a"
    "list_all (\<lambda>s. s \<noteq> None) (take (unat l) b)"
  shows "inv_A (a\<lparr>elements := same_block (elements a) b, length_A := l\<rparr>)"
  using assms by (simp add: inv_A_def block_of_same_block)

subsection \<open>Resizing\<close>

lemma resize_Inl:
  assumes "inv_A a" "resize mem newSize a = (Inl e, a')" "fits mem newSize a"
  shows "a' = a \<and> capacity a < newSize \<and>
         (e = CapacityExceeded \<and> INT32_MAX < newSize \<or> e = OutOfMemory \<and> newSize \<le> INT32_MAX)"
proof (cases "ensureCapacity mem newSize a")
  case (Pair r a1)
  show ?thesis
  proof (cases r)
    case (Inl e1)
    with Pair assms(2) have "e1 = e" "a1 = a'"
      by (simp_all add: resize_def)
    with Pair Inl ensureCapacity_Inl [of mem newSize a e a'] show ?thesis by simp
  next
    case (Inr u)
    note ok = ensureCapacity_Inr [OF assms(1) Pair [unfolded Inr] assms(3)]
    have False
    proof (cases "length_A a1 < newSize")
      case False
      with Pair Inr assms(2) show False by (simp add: resize_def)
    next
      case True
      have "unat (length_A a1) + unat (newSize - length_A a1) \<le> length (block_of (elements a1))"
        using True ok(1,3) by (simp add: inv_A_def unat_sub word_less_nat_alt word_le_nat_alt)
      from fill_n_Some [OF this] Pair Inr assms(2) True show False
        by (simp add: resize_def)
    qed
    then show ?thesis ..
  qed
qed

lemma resize_Inr:
  assumes "inv_A a" "resize mem newSize a = (Inr u, a')" "fits mem newSize a"
  shows "inv_A a'" "length_A a' = newSize" "capacity a \<le> capacity a'"
    "contents a' = take (unat newSize) (contents a) @
       replicate (unat newSize - unat (length_A a)) 0"
proof -
  obtain r a1 where e: "ensureCapacity mem newSize a = (r, a1)"
    by (cases "ensureCapacity mem newSize a")
  with assms(2) obtain v where r: "r = Inr v"
    by (cases r) (simp_all add: resize_def)
  note ok = ensureCapacity_Inr [OF assms(1) e [unfolded r] assms(3)]
  note keep = ensureCapacity_contents [OF assms(1) e [unfolded r] assms(3)]
  let ?n = "unat (length_A a)"
  let ?b1 = "block_of (elements a1)"
  have len1: "length ?b1 = unat (capacity a1)" and n_le: "?n \<le> unat (capacity a1)"
    and ini: "list_all (\<lambda>s. s \<noteq> None) (take ?n ?b1)"
    using ok(1,2) by (simp_all add: inv_A_def word_le_nat_alt)
  have ns: "unat newSize \<le> unat (capacity a1)"
    using ok(3) by (simp add: word_le_nat_alt)
  have "inv_A a' \<and> length_A a' = newSize \<and> capacity a \<le> capacity a' \<and>
    contents a' = take (unat newSize) (contents a) @
       replicate (unat newSize - unat (length_A a)) 0"
  proof (cases "length_A a1 < newSize")
    case False
    then have le: "unat newSize \<le> ?n"
      using ok(2) by (simp add: word_le_nat_alt not_less)
    have a': "a' = a1\<lparr>length_A := newSize\<rparr>"
      using assms(2) e r False by (simp add: resize_def)
    have tt: "take (unat newSize) ?b1 = take (unat newSize) (take ?n ?b1)"
      using le by (simp add: min_def)
    then have "list_all (\<lambda>s. s \<noteq> None) (take (unat newSize) ?b1)"
      using ini by (metis list_all_iff set_take_subset subsetD)
    then have "inv_A a'"
      using ok(1,3) by (simp add: a' inv_A_def)
    moreover have "contents a' = take (unat newSize) (contents a)"
    proof -
      have "contents a' = map the (take (unat newSize) ?b1)"
        by (simp add: contents_def a')
      also have "\<dots> = map the (take (unat newSize) (take ?n (block_of (elements a))))"
        by (simp only: tt keep)
      also have "\<dots> = take (unat newSize) (contents a)"
        by (simp only: contents_def take_map)
      finally show ?thesis .
    qed
    ultimately show ?thesis
      using ok(4) le by (simp add: a')
  next
    case True
    then have lt: "?n < unat newSize"
      using ok(2) by (simp add: word_less_nat_alt)
    have d: "unat (newSize - length_A a1) = unat newSize - ?n"
      using True ok(2) by (simp add: unat_sub)
    let ?b2 = "take ?n ?b1 @ replicate (unat newSize - ?n) (Some 0) @ drop (unat newSize) ?b1"
    have "fill_n ?b1 ?n (unat newSize - ?n) 0 = Some ?b2"
      using fill_n_Some [of ?n "unat newSize - ?n" ?b1 0] lt ns len1 by simp
    then have a': "a' = a1\<lparr>elements := same_block (elements a1) ?b2, length_A := newSize\<rparr>"
      using assms(2) e r True d ok(2) by (simp add: resize_def)
    have l2: "length ?b2 = length ?b1"
      using lt ns len1 by simp
    have t2: "take (unat newSize) ?b2 = take ?n ?b1 @ replicate (unat newSize - ?n) (Some 0)"
      using lt ns len1 by simp
    have ini2: "list_all (\<lambda>s. s \<noteq> None) (take (unat newSize) ?b2)"
      unfolding t2 using ini by (auto simp: list_all_iff)
    have "inv_A a'"
      unfolding a' by (rule inv_A_update [OF ok(1) l2 ok(3) ini2])
    moreover have "contents a' = contents a @ replicate (unat newSize - ?n) 0"
    proof -
      have "block_of (elements a') = ?b2" "length_A a' = newSize"
        by (simp_all add: a' block_of_same_block [OF l2])
      then have "contents a' = map the (take (unat newSize) ?b2)"
        by (simp only: contents_def)
      also have "\<dots> = map the (take ?n ?b1 @ replicate (unat newSize - ?n) (Some 0))"
        by (simp only: t2)
      also have "\<dots> = contents a @ replicate (unat newSize - ?n) 0"
        by (simp add: contents_def keep)
      finally show ?thesis .
    qed
    moreover have "take (unat newSize) (contents a) = contents a"
      using lt by (simp add: contents_def)
    ultimately show ?thesis
      using ok(4) by (simp add: a')
  qed
  then show "inv_A a'" "length_A a' = newSize" "capacity a \<le> capacity a'"
    "contents a' = take (unat newSize) (contents a) @
       replicate (unat newSize - unat (length_A a)) 0"
    by simp_all
qed

subsection \<open>Writing one element\<close>

lemma inv_A_elements:
  assumes "inv_A a" "length b = length (block_of (elements a))"
    "list_all (\<lambda>s. s \<noteq> None) (take (unat (length_A a)) b)"
  shows "inv_A (a\<lparr>elements := same_block (elements a) b\<rparr>)"
  using assms by (simp add: inv_A_def block_of_same_block)

lemma store_Some: "i < length b \<Longrightarrow> store b i v = Some (b[i := Some v])"
  by (simp add: store_def)

lemma store_inv:
  assumes "inv_A a" "store (block_of (elements a)) i v = Some b"
  shows "inv_A (a\<lparr>elements := same_block (elements a) b\<rparr>)"
proof -
  have b: "b = (block_of (elements a))[i := Some v]"
    using assms(2) by (auto simp: store_def split: if_splits)
  have "list_all (\<lambda>s. s \<noteq> None) (take (unat (length_A a)) b)"
    using assms(1) unfolding b inv_A_def list_all_iff
    by (auto simp: take_update_swap dest!: set_update_subset_insert [THEN subsetD])
  then show ?thesis
    using assms(1) by (intro inv_A_elements) (simp_all add: b)
qed

lemma length_contents: "inv_A a \<Longrightarrow> length (contents a) = unat (length_A a)"
  by (simp add: contents_def inv_A_def word_le_nat_alt)

lemma replicate_Suc_update: "(replicate (Suc k) x)[k := v] = replicate k x @ [v]"
  by (induction k) simp_all

lemma set_A_grow:
  assumes "inv_A a" "length_A a \<le> index" "index < INT32_MAX"
    "fst (set_A mem index v a) \<noteq> Inl OutOfMemory" "fits mem (index + 1) a"
  shows "\<exists>a'. set_A mem index v a = (Inr (), a') \<and> inv_A a' \<and> length_A a' = index + 1 \<and>
           contents a' = contents a @ replicate (unat index - unat (length_A a)) 0 @ [v]"
proof -
  let ?n = "unat (length_A a)"
  have i: "unat index < 2147483647" and n: "?n \<le> unat index"
    using assms(2,3) by (simp_all add: INT32_MAX_def word_less_nat_alt word_le_nat_alt)
  have i1: "unat (index + 1) = Suc (unat index)" "index + 1 \<le> INT32_MAX"
    using i by (simp_all add: unat_word_ariths INT32_MAX_def word_le_nat_alt)
  obtain r a1 where rs: "resize mem (index + 1) a = (r, a1)"
    by (cases "resize mem (index + 1) a")
  have "\<exists>u. r = Inr u"
  proof (cases r)
    case (Inl e)
    with resize_Inl [OF assms(1) rs [unfolded Inl] assms(5)] i1(2) assms(4) assms(2) rs
    show ?thesis by (auto simp: set_A_def)
  next
    case (Inr u)
    then show ?thesis by simp
  qed
  then obtain u where r: "r = Inr u" ..
  note ok = resize_Inr [OF assms(1) rs [unfolded r] assms(5)]
  let ?b1 = "block_of (elements a1)"
  have len1: "length ?b1 = unat (capacity a1)" "Suc (unat index) \<le> unat (capacity a1)"
    using ok(1,2) i1(1) by (simp_all add: inv_A_def word_le_nat_alt)
  then have lt: "unat index < length ?b1" by simp
  let ?a' = "a1\<lparr>elements := same_block (elements a1) (?b1[unat index := Some v])\<rparr>"
  have eq: "set_A mem index v a = (Inr (), ?a')"
    using assms(2) rs r store_Some [OF lt] by (simp add: set_A_def)
  have inv: "inv_A ?a'"
    using ok(1) store_Some [OF lt] by (rule store_inv)
  have c1: "contents a1 = contents a @ replicate (Suc (unat index) - ?n) 0"
    using ok(4) length_contents [OF assms(1)] n by (simp add: i1(1))
  have "contents ?a' = (contents a1)[unat index := v]"
    using lt by (simp add: contents_def block_of_same_block ok(2) i1(1) take_update_swap
      map_update)
  also have "\<dots> = contents a @ replicate (unat index - ?n) 0 @ [v]"
    using n length_contents [OF assms(1)]
    by (simp add: c1 list_update_append Suc_diff_le replicate_Suc_update del: replicate_Suc)
  finally show ?thesis
    using eq inv ok(2) by simp
qed

subsection \<open>Resolving the bounds of a range\<close>

lemma resolveIndex_negative:
  assumes "sint i < 0" "- int (unat len) \<le> sint i"
  shows "int (unat (resolveIndex len i)) = int (unat len) + sint i"
proof -
  have r: "resolveIndex len i = len + i"
    using assms(1) by (simp add: resolveIndex_def word_sless_alt)
  have "uint (len + i) = (uint len + uint i) mod 2 ^ 32"
    by (simp add: uint_word_ariths)
  also have "\<dots> = (uint len + sint i) mod 2 ^ 32"
    by (simp add: uint_sint [of i] take_bit_eq_mod mod_add_right_eq)
  also have "\<dots> = uint len + sint i"
    using assms uint_lt2p [of len] by (intro mod_pos_pos_trivial) simp_all
  finally show ?thesis
    by (simp add: r)
qed

lemma resolveIndex_below_zero:
  assumes "sint i < 0" "int (unat len) + sint i < 0"
  shows "len < resolveIndex len i"
proof -
  define u where "u = uint len"
  have r: "resolveIndex len i = len + i"
    using assms(1) by (simp add: resolveIndex_def word_sless_alt)
  have u0: "0 \<le> u" and neg: "u + sint i < 0" and lo: "- 2147483648 \<le> sint i"
    using assms(2) sint_ge [of i] by (simp_all add: u_def)
  have "uint (len + i) = (u + uint i) mod 2 ^ 32"
    by (simp add: uint_word_ariths u_def)
  also have "\<dots> = (u + sint i) mod 2 ^ 32"
    by (simp add: uint_sint [of i] take_bit_eq_mod mod_add_right_eq)
  also have "\<dots> = (u + sint i + 2 ^ 32) mod 2 ^ 32"
    by simp
  also have "\<dots> = u + sint i + 2 ^ 32"
    using u0 neg lo by (intro mod_pos_pos_trivial) simp_all
  finally have "uint (len + i) = u + sint i + 2 ^ 32" .
  then have "u < uint (len + i)"
    using u0 neg lo by simp
  then show ?thesis
    by (simp add: r word_less_def u_def)
qed

lemma resolveIndex_nonnegative:
  assumes "0 \<le> sint i"
  shows "int (unat (resolveIndex len i)) = sint i"
proof -
  have "resolveIndex len i = i"
    using assms by (simp add: resolveIndex_def word_sless_alt)
  moreover have "uint i = sint i"
    using assms sint_lt [of i] by (simp add: uint_sint [of i] take_bit_eq_mod)
  ultimately show ?thesis
    by simp
qed

lemma fill_eq:
  assumes "inv_A a"
  shows "fill v start end' a =
     (let s = resolveIndex (length_A a) start; e = resolveIndex (length_A a) end'
      in if length_A a \<le> s \<or> length_A a < e then (Inl IndexOutOfRange, a)
         else if e < s then (Inr (), a)
         else (Inr (), a\<lparr>elements := same_block (elements a)
                 (take (unat s) (block_of (elements a)) @ replicate (unat e - unat s) (Some v) @
                  drop (unat e) (block_of (elements a)))\<rparr>))"
proof -
  let ?s = "resolveIndex (length_A a) start" and ?e = "resolveIndex (length_A a) end'"
  let ?b = "block_of (elements a)"
  have "fill_n ?b (unat ?s) (unat ?e - unat ?s) v =
      Some (take (unat ?s) ?b @ replicate (unat ?e - unat ?s) (Some v) @ drop (unat ?e) ?b)"
    if "?e \<le> length_A a" "?s \<le> ?e"
  proof -
    have "unat ?s + (unat ?e - unat ?s) \<le> length ?b"
      using that assms by (simp add: inv_A_def word_le_nat_alt)
    from fill_n_Some [OF this] that(2) show ?thesis
      by (simp add: word_le_nat_alt)
  qed
  note inside = this
  show ?thesis
  proof (cases "length_A a \<le> ?s")
    case True
    then show ?thesis
      unfolding fill_def Let_def by (simp only: if_True simp_thms)
  next
    case n1: False
    show ?thesis
    proof (cases "length_A a < ?e")
      case True
      with n1 show ?thesis
        unfolding fill_def Let_def by (simp only: if_True if_False simp_thms)
    next
      case n2: False
      show ?thesis
      proof (cases "?e < ?s")
        case True
        with n1 n2 show ?thesis
          unfolding fill_def Let_def by (simp only: if_True if_False simp_thms)
      next
        case n3: False
        have "?e \<le> length_A a" "?s \<le> ?e"
          using n2 n3 by (simp_all add: not_less)
        from inside [OF this] n1 n2 n3 show ?thesis
          unfolding fill_def Let_def by (simp only: if_False simp_thms option.case)
      qed
    qed
  qed
qed

subsection \<open>Reading, and removing at either end\<close>

lemma inv_A_nth:
  assumes "inv_A a" "i < unat (length_A a)"
  shows "i < length (block_of (elements a))"
    and "\<exists>x. block_of (elements a) ! i = Some x"
proof -
  have le: "unat (length_A a) \<le> length (block_of (elements a))"
    using assms(1) by (simp add: inv_A_def word_le_nat_alt)
  with assms(2) show "i < length (block_of (elements a))" by simp
  have "block_of (elements a) ! i \<in> set (take (unat (length_A a)) (block_of (elements a)))"
    using assms(2) le by (metis in_set_conv_nth length_take min.absorb2 nth_take)
  then show "\<exists>x. block_of (elements a) ! i = Some x"
    using assms(1) by (auto simp: inv_A_def list_all_iff)
qed

lemma load_initialised:
  assumes "inv_A a" "i < unat (length_A a)"
  shows "load (elements a) i = Some (contents a ! i)"
proof -
  from inv_A_nth [OF assms] obtain x where
    "i < length (block_of (elements a))" "block_of (elements a) ! i = Some x"
    by blast
  then show ?thesis
    using assms(2) by (simp add: load_def contents_def)
qed

lemma pop_empty: "length_A a = 0 \<Longrightarrow> pop a = (Inl EmptyArray, a)"
  by (simp add: pop_def)

lemma pop_nonempty:
  assumes "inv_A a" "length_A a \<noteq> 0"
  shows "pop a = (Inr (last (contents a)), a\<lparr>length_A := length_A a - 1\<rparr>)"
    and "contents (a\<lparr>length_A := length_A a - 1\<rparr>) = butlast (contents a)"
    and "inv_A (a\<lparr>length_A := length_A a - 1\<rparr>)"
proof -
  let ?n = "unat (length_A a)"
  let ?b = "block_of (elements a)"
  have n: "0 < ?n" "unat (length_A a - 1) = ?n - 1"
    using assms(2) by (simp_all add: unat_gt_0 unat_minus_one)
  have len: "?n \<le> length ?b"
    using assms(1) by (simp add: inv_A_def word_le_nat_alt)
  have "load (elements a) (?n - 1) = Some (contents a ! (?n - 1))"
    using n(1) by (intro load_initialised [OF assms(1)]) simp
  moreover have "contents a ! (?n - 1) = last (contents a)"
    using n(1) length_contents [OF assms(1)]
    by (metis last_conv_nth length_greater_0_conv)
  ultimately show "pop a = (Inr (last (contents a)), a\<lparr>length_A := length_A a - 1\<rparr>)"
    using assms(2) n(2) by (simp add: pop_def Let_def)
  show "contents (a\<lparr>length_A := length_A a - 1\<rparr>) = butlast (contents a)"
    using len by (simp add: contents_def n(2) map_butlast [symmetric] butlast_take)
  have "length_A a - 1 \<le> length_A a"
    using n by (simp add: word_le_nat_alt)
  moreover have "set (take (?n - 1) ?b) \<subseteq> set (take ?n ?b)"
    by (simp add: set_take_subset_set_take)
  ultimately show "inv_A (a\<lparr>length_A := length_A a - 1\<rparr>)"
    using assms(1) by (auto simp: inv_A_def n(2) list_all_iff)
qed

lemma shift_empty: "length_A a = 0 \<Longrightarrow> shift a = (Inl EmptyArray, a)"
  by (simp add: shift_def)

lemma shift_nonempty:
  assumes "inv_A a" "length_A a \<noteq> 0"
  shows "\<exists>a'. shift a = (Inr (hd (contents a)), a') \<and> contents a' = tl (contents a) \<and>
           length_A a' = length_A a - 1 \<and> capacity a' = capacity a \<and> inv_A a'"
proof -
  let ?n = "unat (length_A a)"
  let ?b = "block_of (elements a)"
  let ?b' = "take (?n - 1) (drop 1 ?b) @ drop (?n - 1) ?b"
  let ?a' = "a\<lparr>elements := same_block (elements a) ?b', length_A := length_A a - 1\<rparr>"
  have n: "0 < ?n" "unat (length_A a - 1) = ?n - 1"
    using assms(2) by (simp_all add: unat_gt_0 unat_minus_one)
  have len: "?n \<le> length ?b"
    using assms(1) by (simp add: inv_A_def word_le_nat_alt)
  have "load (elements a) 0 = Some (contents a ! 0)"
    using n(1) by (intro load_initialised [OF assms(1)])
  moreover have "contents a ! 0 = hd (contents a)"
    using n(1) length_contents [OF assms(1)]
    by (metis hd_conv_nth length_greater_0_conv)
  moreover have "copy ?b 1 (?n - 1) 0 = Some ?b'"
    using copy_eq [of 1 "?n - 1" ?b 0] len n(1) by simp
  ultimately have eq: "shift a = (Inr (hd (contents a)), ?a')"
    using assms(2) by (simp add: shift_def)
  have l': "length ?b' = length ?b"
    using len n(1) by simp
  have t': "take (?n - 1) ?b' = take (?n - 1) (drop 1 ?b)"
    using len n(1) by simp
  have "block_of (elements ?a') = ?b'" "length_A ?a' = length_A a - 1"
    using block_of_same_block [OF l'] by simp_all
  then have "contents ?a' = map the (take (?n - 1) ?b')"
    by (simp only: contents_def n(2))
  also have "\<dots> = tl (contents a)"
    unfolding t' by (simp add: contents_def map_tl [symmetric] tl_take drop_Suc)
  finally have c: "contents ?a' = tl (contents a)" .
  have "set (take (?n - 1) (drop 1 ?b)) \<subseteq> set (take ?n ?b)"
    by (metis One_nat_def drop_0 drop_Suc list.set_sel(2) subsetI take_eq_Nil tl_take
      list.sel(2))
  then have "list_all (\<lambda>s. s \<noteq> None) (take (unat (length_A a - 1)) ?b')"
    using assms(1) unfolding n(2) t' by (auto simp: inv_A_def list_all_iff)
  moreover have "length_A a - 1 \<le> capacity a"
    using len assms(1) n by (auto simp: inv_A_def word_le_nat_alt)
  ultimately have "inv_A ?a'"
    using assms(1) l' by (intro inv_A_update) simp_all
  with eq c show ?thesis by simp
qed

subsection \<open>The invariants across the operations\<close>

lemma copy_in_result:
  assumes "copy_in xs b d = Some b'"
  shows "b' = take d b @ map Some xs @ drop (d + length xs) b" "length b' = length b"
    "xs = [] \<or> d + length xs \<le> length b"
proof -
  show c: "xs = [] \<or> d + length xs \<le> length b"
    using copy_in_bounds [OF assms] by blast
  show e: "b' = take d b @ map Some xs @ drop (d + length xs) b"
  proof (cases "xs = []")
    case True
    with assms show ?thesis by simp
  next
    case False
    with c have "d + length xs \<le> length b" by simp
    from copy_in_Some [OF this] assms show ?thesis by simp
  qed
  show "length b' = length b"
    using c by (auto simp: e)
qed

lemma ensureCapacity_frame:
  assumes "inv_A a" "fits mem m a"
  shows "inv_A (snd (ensureCapacity mem m a))"
    and "capacity a \<le> capacity (snd (ensureCapacity mem m a))"
proof -
  obtain r a1 where e: "ensureCapacity mem m a = (r, a1)"
    by (cases "ensureCapacity mem m a")
  have "inv_A a1 \<and> capacity a \<le> capacity a1"
  proof (cases r)
    case (Inl err)
    with ensureCapacity_Inl [of mem m a err a1] e assms(1) show ?thesis by simp
  next
    case (Inr u)
    with ensureCapacity_Inr(1,4) [OF assms(1) _ assms(2), of u a1] e show ?thesis by simp
  qed
  then show "inv_A (snd (ensureCapacity mem m a))"
    and "capacity a \<le> capacity (snd (ensureCapacity mem m a))"
    by (simp_all add: e)
qed

lemma resize_frame:
  assumes "inv_A a" "fits mem newSize a"
  shows "inv_A (snd (resize mem newSize a))"
    and "capacity a \<le> capacity (snd (resize mem newSize a))"
proof -
  obtain r a1 where e: "resize mem newSize a = (r, a1)"
    by (cases "resize mem newSize a")
  have "inv_A a1 \<and> capacity a \<le> capacity a1"
  proof (cases r)
    case (Inl err)
    with resize_Inl [OF assms(1) _ assms(2), of err a1] e assms(1) show ?thesis by simp
  next
    case (Inr u)
    with resize_Inr(1,3) [OF assms(1) _ assms(2), of u a1] e show ?thesis by simp
  qed
  then show "inv_A (snd (resize mem newSize a))"
    and "capacity a \<le> capacity (snd (resize mem newSize a))"
    by (simp_all add: e)
qed

lemma store_frame:
  assumes "inv_A a1"
  shows "inv_A (snd (case store (block_of (elements a1)) i v of
             None \<Rightarrow> (Inl UndefinedBehaviour, a1)
           | Some b \<Rightarrow> (Inr (), a1\<lparr>elements := same_block (elements a1) b\<rparr>)))"
    and "capacity (snd (case store (block_of (elements a1)) i v of
             None \<Rightarrow> (Inl UndefinedBehaviour, a1)
           | Some b \<Rightarrow> (Inr (), a1\<lparr>elements := same_block (elements a1) b\<rparr>))) = capacity a1"
  using assms store_inv [OF assms]
  by (cases "store (block_of (elements a1)) i v"; simp)+

lemma set_A_frame:
  assumes "inv_A a" "length_A a \<le> index \<Longrightarrow> fits mem (index + 1) a"
  shows "inv_A (snd (set_A mem index v a))"
    and "capacity a \<le> capacity (snd (set_A mem index v a))"
proof -
  obtain r a1 where e: "(if length_A a \<le> index then resize mem (index + 1) a else (Inr (), a)) = (r, a1)"
    by (cases "if length_A a \<le> index then resize mem (index + 1) a else (Inr (), a)")
  have "inv_A a1 \<and> capacity a \<le> capacity a1"
  proof (cases "length_A a \<le> index")
    case True
    from resize_frame [OF assms(1) assms(2) [OF True]] e True show ?thesis by simp
  next
    case False
    with e assms(1) show ?thesis by simp
  qed
  then have a1: "inv_A a1" "capacity a \<le> capacity a1"
    by simp_all
  have "inv_A (snd (set_A mem index v a)) \<and> capacity a \<le> capacity (snd (set_A mem index v a))"
  proof (cases r)
    case (Inl err)
    with e a1 show ?thesis by (simp add: set_A_def)
  next
    case (Inr u)
    with e a1 store_frame [OF a1(1), of "unat index" v] show ?thesis
      by (simp add: set_A_def)
  qed
  then show "inv_A (snd (set_A mem index v a))"
    and "capacity a \<le> capacity (snd (set_A mem index v a))"
    by simp_all
qed

lemma fill_frame:
  assumes "inv_A a"
  shows "inv_A (snd (fill v start end' a))"
    and "capacity (snd (fill v start end' a)) = capacity a"
    and "length_A (snd (fill v start end' a)) = length_A a"
proof -
  let ?s = "resolveIndex (length_A a) start" and ?e = "resolveIndex (length_A a) end'"
  let ?b = "block_of (elements a)"
  let ?b' = "take (unat ?s) ?b @ replicate (unat ?e - unat ?s) (Some v) @ drop (unat ?e) ?b"
  have *: "inv_A (a\<lparr>elements := same_block (elements a) ?b'\<rparr>)"
    if "?s \<le> ?e" "?e \<le> length_A a"
  proof -
    have le: "unat ?s \<le> unat ?e" "unat ?e \<le> unat (length_A a)" 
      "unat (length_A a) \<le> length ?b"
      using that assms by (simp_all add: word_le_nat_alt inv_A_def)
    then have l: "length ?b' = length ?b" by simp
    have t: "take (unat (length_A a)) ?b' =
        take (unat ?s) ?b @ replicate (unat ?e - unat ?s) (Some v) @
        drop (unat ?e) (take (unat (length_A a)) ?b)"
      using le by (simp add: drop_take)
    have "set (take (unat ?s) ?b) \<subseteq> set (take (unat (length_A a)) ?b)"
      using le by (intro set_take_subset_set_take) simp
    moreover have "set (drop (unat ?e) (take (unat (length_A a)) ?b))
        \<subseteq> set (take (unat (length_A a)) ?b)"
      by (rule set_drop_subset)
    ultimately have "set (take (unat (length_A a)) ?b')
        \<subseteq> insert (Some v) (set (take (unat (length_A a)) ?b))"
      unfolding t by auto
    then have "list_all (\<lambda>s. s \<noteq> None) (take (unat (length_A a)) ?b')"
      using assms by (auto simp: inv_A_def list_all_iff)
    with assms l show ?thesis by (intro inv_A_elements)
  qed
  have "inv_A (snd (fill v start end' a)) \<and> capacity (snd (fill v start end' a)) = capacity a
      \<and> length_A (snd (fill v start end' a)) = length_A a"
    unfolding fill_eq [OF assms] Let_def using assms * by (auto simp: not_le not_less)
  then show "inv_A (snd (fill v start end' a))"
    and "capacity (snd (fill v start end' a)) = capacity a"
    and "length_A (snd (fill v start end' a)) = length_A a"
    by simp_all
qed

lemma pop_frame:
  assumes "inv_A a"
  shows "inv_A (snd (pop a))" and "capacity (snd (pop a)) = capacity a"
  using assms pop_nonempty(1,3) [OF assms] by (cases "length_A a = 0"; simp add: pop_empty)+

lemma shift_frame:
  assumes "inv_A a"
  shows "inv_A (snd (shift a))" and "capacity (snd (shift a)) = capacity a"
  using assms shift_nonempty [OF assms] by (cases "length_A a = 0"; auto simp: shift_empty)+

lemma appended_inv:
  assumes "inv_A a1" "copy_in xs b1 (unat (length_A a1) + 0) = Some b" "length xs = unat k"
    "length_A a1 + k \<le> capacity a1"
    "length b1 = length (block_of (elements a1))"
    "list_all (\<lambda>s. s \<noteq> None) (take (unat (length_A a1)) b1)"
  shows "inv_A (a1\<lparr>elements := same_block (elements a1) b, length_A := length_A a1 + k\<rparr>)"
    and "xs \<noteq> [] \<Longrightarrow> unat (length_A a1 + k) = unat (length_A a1) + unat k"
    and "map the (take (unat (length_A a1 + k)) b) = map the (take (unat (length_A a1)) b1) @ xs"
proof -
  let ?n = "unat (length_A a1)"
  note r = copy_in_result [OF assms(2)]
  have lenb: "length b1 = unat (capacity a1)" and nle: "?n \<le> length b1"
    using assms(1,5) by (simp_all add: inv_A_def word_le_nat_alt)
  have nowrap: "unat (length_A a1 + k) = ?n + unat k"
  proof (cases "xs = []")
    case True
    with assms(3) have "unat k = 0" by simp
    then have "k = 0" by (simp add: unat_eq_zero)
    then show ?thesis by simp
  next
    case False
    with r(3) lenb assms(3) have "?n + unat k \<le> unat (capacity a1)" by simp
    then have "?n + unat k < 2 ^ 32"
      using unsigned_less [of "capacity a1", where 'a = nat] by simp
    then show ?thesis by (simp add: unat_word_ariths)
  qed
  then show "xs \<noteq> [] \<Longrightarrow> unat (length_A a1 + k) = ?n + unat k" by simp
  have tk: "take (unat (length_A a1 + k)) b = take ?n b1 @ map Some xs"
    using r(1) nle assms(3) by (simp add: nowrap)
  then show "map the (take (unat (length_A a1 + k)) b) = map the (take ?n b1) @ xs"
    by (simp add: comp_def)
  have "list_all (\<lambda>s. s \<noteq> None) (take (unat (length_A a1 + k)) b)"
    unfolding tk using assms(6) by (auto simp: list_all_iff)
  with assms(1,4,5) r(2) show
    "inv_A (a1\<lparr>elements := same_block (elements a1) b, length_A := length_A a1 + k\<rparr>)"
    by (intro inv_A_update) simp_all
qed

lemma push_frame:
  assumes "inv_A a" "fits mem (length_A a + numElements) a"
  shows "inv_A (snd (push mem elems numElements a))"
    and "capacity a \<le> capacity (snd (push mem elems numElements a))"
proof -
  let ?m = "length_A a + numElements"
  obtain r a1 where e: "ensureCapacity mem ?m a = (r, a1)"
    by (cases "ensureCapacity mem ?m a")
  have a1: "inv_A a1" "capacity a \<le> capacity a1"
    using ensureCapacity_frame [OF assms] e by simp_all
  have "inv_A (snd (push mem elems numElements a)) \<and>
      capacity a \<le> capacity (snd (push mem elems numElements a))"
  proof (cases r)
    case (Inl err)
    with e a1 show ?thesis by (simp add: push_def Let_def)
  next
    case (Inr u)
    note ok = ensureCapacity_Inr [OF assms(1) e [unfolded Inr] assms(2)]
    let ?c = "if unat numElements \<le> length elems
       then copy_in (take (unat numElements) elems) (block_of (elements a1)) (unat (length_A a1))
       else None"
    show ?thesis
    proof (cases ?c)
      case None
      with e Inr a1 show ?thesis by (simp add: push_def Let_def)
    next
      case (Some b)
      then have le: "unat numElements \<le> length elems"
        and c: "copy_in (take (unat numElements) elems) (block_of (elements a1))
                  (unat (length_A a1) + 0) = Some b"
        by (simp_all split: if_splits)
      have "inv_A (a1\<lparr>elements := same_block (elements a1) b,
          length_A := length_A a1 + numElements\<rparr>)"
        using ok(1) c _ _ _ _
      proof (rule appended_inv(1))
        show "length (take (unat numElements) elems) = unat numElements" using le by simp
        show "length_A a1 + numElements \<le> capacity a1" using ok(2,3) by simp
        show "length (block_of (elements a1)) = length (block_of (elements a1))" ..
        show "list_all (\<lambda>s. s \<noteq> None) (take (unat (length_A a1)) (block_of (elements a1)))"
          using ok(1) by (simp add: inv_A_def)
      qed
      with e Inr Some a1 ok(2) show ?thesis by (simp add: push_def Let_def)
    qed
  qed
  then show "inv_A (snd (push mem elems numElements a))"
    and "capacity a \<le> capacity (snd (push mem elems numElements a))"
    by simp_all
qed

lemma push_Inr:
  assumes "inv_A a" "push mem elems numElements a = (Inr l, a')"
    "fits mem (length_A a + numElements) a"
  shows "l = length_A a + numElements" "length_A a' = l"
    "contents a' = contents a @ take (unat numElements) elems"
    "unat l = unat (length_A a) + unat numElements"
proof -
  let ?m = "length_A a + numElements"
  obtain r a1 where e: "ensureCapacity mem ?m a = (r, a1)"
    by (cases "ensureCapacity mem ?m a")
  with assms(2) obtain u where r: "r = Inr u"
    by (cases r) (simp_all add: push_def Let_def)
  note ok = ensureCapacity_Inr [OF assms(1) e [unfolded r] assms(3)]
  note keep = ensureCapacity_contents [OF assms(1) e [unfolded r] assms(3)]
  let ?xs = "take (unat numElements) elems"
  let ?c = "if unat numElements \<le> length elems
       then copy_in ?xs (block_of (elements a1)) (unat (length_A a1)) else None"
  from assms(2) e r obtain b where c: "?c = Some b"
    by (cases ?c) (simp_all add: push_def Let_def)
  then have le: "unat numElements \<le> length elems"
    and ci: "copy_in ?xs (block_of (elements a1)) (unat (length_A a1) + 0) = Some b"
    by (simp_all split: if_splits)
  have a': "a' = a1\<lparr>elements := same_block (elements a1) b, length_A := ?m\<rparr>" and l: "l = ?m"
    using assms(2) e r c by (auto simp: push_def Let_def)
  have lx: "length ?xs = unat numElements" using le by simp
  have cap: "length_A a1 + numElements \<le> capacity a1" using ok(2,3) by simp
  have ini: "list_all (\<lambda>s. s \<noteq> None) (take (unat (length_A a1)) (block_of (elements a1)))"
    using ok(1) by (simp add: inv_A_def)
  note app = appended_inv [OF ok(1) ci lx cap refl ini]
  show "l = ?m" by (fact l)
  show "length_A a' = l" by (simp add: a' l)
  have "block_of (elements a') = b"
    using copy_in_result(2) [OF ci] by (simp add: a' block_of_same_block)
  then have "contents a' = map the (take (unat (length_A a1 + numElements)) b)"
    by (simp add: contents_def a' ok(2))
  also have "\<dots> = map the (take (unat (length_A a1)) (block_of (elements a1))) @ ?xs"
    by (rule app(3))
  also have "\<dots> = contents a @ ?xs"
    using keep by (simp add: contents_def ok(2))
  finally show "contents a' = contents a @ ?xs" .
  show "unat l = unat (length_A a) + unat numElements"
  proof (cases "?xs = []")
    case True
    with lx have "unat numElements = 0" by simp
    then have "numElements = 0" by (simp add: unat_eq_zero)
    then show ?thesis by (simp add: l)
  next
    case False
    from app(2) [OF this] show ?thesis by (simp add: l ok(2))
  qed
qed

lemma unshift_frame:
  assumes "inv_A a" "fits mem (length_A a + numElements) a"
  shows "inv_A (snd (unshift mem elems numElements a))"
    and "capacity a \<le> capacity (snd (unshift mem elems numElements a))"
proof -
  let ?m = "length_A a + numElements"
  let ?k = "unat numElements"
  obtain r a1 where e: "ensureCapacity mem ?m a = (r, a1)"
    by (cases "ensureCapacity mem ?m a")
  have a1: "inv_A a1" "capacity a \<le> capacity a1"
    using ensureCapacity_frame [OF assms] e by simp_all
  let ?n = "unat (length_A a1)"
  let ?b1 = "block_of (elements a1)"
  let ?xs = "take ?k elems"
  have "inv_A (snd (unshift mem elems numElements a)) \<and>
      capacity a \<le> capacity (snd (unshift mem elems numElements a))"
  proof (cases r)
    case (Inl err)
    with e a1 show ?thesis by (simp add: unshift_def Let_def)
  next
    case (Inr u)
    note ok = ensureCapacity_Inr [OF assms(1) e [unfolded Inr] assms(2)]
    have cap: "length_A a1 + numElements \<le> capacity a1" using ok(2,3) by simp
    have ini: "list_all (\<lambda>s. s \<noteq> None) (take ?n ?b1)"
      and lenb: "length ?b1 = unat (capacity a1)"
      using ok(1) by (simp_all add: inv_A_def)
    show ?thesis
    proof (cases "copy ?b1 0 ?n ?k")
      case None
      with e Inr a1 show ?thesis by (simp add: unshift_def Let_def)
    next
      case (Some b')
      note moved = this
      let ?c = "if ?k \<le> length elems then copy_in ?xs b' 0 else None"
      show ?thesis
      proof (cases ?c)
        case None
        with e Inr a1 moved show ?thesis by (simp add: unshift_def Let_def)
      next
        case (Some b)
        then have le: "?k \<le> length elems" and ci: "copy_in ?xs b' 0 = Some b"
          by (simp_all split: if_splits)
        have lx: "length ?xs = ?k" using le by simp
        note r = copy_in_result [OF ci]
        have l': "length b' = length ?b1" by (rule copy_length [OF moved])
        have "inv_A (a1\<lparr>elements := same_block (elements a1) b,
            length_A := length_A a1 + numElements\<rparr>)"
        proof (cases "?n = 0")
          case True
          then have z: "length_A a1 = 0" by (simp add: unat_eq_zero)
          have "b' = ?b1" using moved True by (simp add: copy_def)
          with ci z have "copy_in ?xs ?b1 (unat (length_A a1) + 0) = Some b" by simp
          from appended_inv(1) [OF ok(1) this lx cap refl ini] show ?thesis .
        next
          case False
          then have pos: "0 < ?n" by simp
          from copy_bounds [OF moved pos] have b: "?n \<le> length ?b1" "?k + ?n \<le> length ?b1"
            by simp_all
          then have "?n + ?k < 2 ^ 32"
            using unsigned_less [of "capacity a1", where 'a = nat] lenb by simp
          then have nowrap: "unat (length_A a1 + numElements) = ?n + ?k"
            by (simp add: unat_word_ariths)
          have b'eq: "b' = take ?k ?b1 @ take ?n ?b1 @ drop (?k + ?n) ?b1"
            using copy_eq [of 0 ?n ?b1 ?k] b moved by simp
          have bb: "b = map Some ?xs @ drop ?k b'"
            using r(1) lx by simp
          have dk: "drop ?k b' = take ?n ?b1 @ drop (?k + ?n) ?b1"
            using b by (simp add: b'eq)
          have tk: "take (?n + ?k) b = map Some ?xs @ take ?n ?b1"
            using lx b by (simp add: bb dk)
          have "list_all (\<lambda>s. s \<noteq> None) (take (unat (length_A a1 + numElements)) b)"
            unfolding nowrap tk using ini by (auto simp: list_all_iff)
          with ok(1) cap r(2) l' show ?thesis
            by (intro inv_A_update) simp_all
        qed
        with e Inr moved Some a1 ok(2) show ?thesis by (simp add: unshift_def Let_def)
      qed
    qed
  qed
  then show "inv_A (snd (unshift mem elems numElements a))"
    and "capacity a \<le> capacity (snd (unshift mem elems numElements a))"
    by simp_all
qed

subsection \<open>Construction\<close>

lemma Array_Inr:
  fixes a :: "'a::zero Array"
  assumes "Array mem sz elems = Inr a" "unat sz * unat (sizeof (sizeof_T mem)) < 4294967296"
  shows "inv_A a" "length_A a = sz" "capacity a = sz" "sz \<le> INT32_MAX"
    "contents a = (case elems of None \<Rightarrow> replicate (unat sz) 0 | Some src \<Rightarrow> take (unat sz) src)"
proof -
  have "inv_A a \<and> length_A a = sz \<and> capacity a = sz \<and> sz \<le> INT32_MAX \<and>
    contents a = (case elems of None \<Rightarrow> replicate (unat sz) 0 | Some src \<Rightarrow> take (unat sz) src)"
  proof (cases "sz = 0")
    case True
    with assms(1) show ?thesis
      by (auto simp: Array_def inv_A_def contents_def split: option.splits)
  next
    case False
    let ?b = "replicate (unat sz) None :: 'a option list"
    have "realloc mem None (sz * sizeof (sizeof_T mem)) =
        (if grants mem (unat sz * unat (sizeof (sizeof_T mem))) then Some ?b else None)"
      using realloc_fitting [OF assms(2), where ptr = "None :: 'a block option"] by simp
    with assms(1) False
    have al: "allocateElements mem sz None = Inr ?b" and le: "sz \<le> INT32_MAX"
      by (auto simp: Array_def allocateElements_def split: if_splits sum.splits option.splits)
    have pos: "0 < unat sz" using False by (simp add: unat_gt_0)
    show ?thesis
    proof (cases elems)
      case None
      have "fill_n ?b 0 (unat sz) 0 = Some (replicate (unat sz) (Some 0))"
        using fill_n_Some [of 0 "unat sz" ?b 0] by simp
      with assms(1) False al None have "a = \<lparr>length_A = sz, capacity = sz,
          elements = Some (replicate (unat sz) (Some 0))\<rparr>"
        by (simp add: Array_def)
      with False le None show ?thesis
        by (simp add: inv_A_def contents_def list_all_iff)
    next
      case (Some src)
      with assms(1) False al have long: "unat sz \<le> length src"
        by (auto simp: Array_def split: if_splits)
      then have "copy_in (take (unat sz) src) ?b 0 = Some (map Some (take (unat sz) src))"
        using copy_in_Some [of 0 "take (unat sz) src" ?b] by simp
      with assms(1) False al Some long have "a = \<lparr>length_A = sz, capacity = sz,
          elements = Some (map Some (take (unat sz) src))\<rparr>"
        by (simp add: Array_def)
      with False le Some long show ?thesis
        by (simp add: inv_A_def contents_def list_all_iff comp_def)
    qed
  qed
  then show "inv_A a" "length_A a = sz" "capacity a = sz" "sz \<le> INT32_MAX"
    "contents a = (case elems of None \<Rightarrow> replicate (unat sz) 0 | Some src \<Rightarrow> take (unat sz) src)"
    by simp_all
qed

subsection \<open>Appending and prepending\<close>

lemma push_appends:
  assumes "inv_A a" "unat numElements \<le> length elems"
    "unat (length_A a) + unat numElements \<le> 2147483647"
    "fst (push mem elems numElements a) \<noteq> Inl OutOfMemory"
    "fits mem (length_A a + numElements) a"
  shows "\<exists>a'. push mem elems numElements a = (Inr (length_A a + numElements), a') \<and>
           length_A a' = length_A a + numElements \<and>
           contents a' = contents a @ take (unat numElements) elems \<and>
           unat (capacity a') =
             (if length_A a + numElements \<le> capacity a then unat (capacity a)
              else growth_policy (unat (capacity a)) (unat (length_A a + numElements)))"
proof -
  let ?m = "length_A a + numElements"
  let ?n = "unat (length_A a)"
  let ?xs = "take (unat numElements) elems"
  have um: "unat ?m = ?n + unat numElements"
    using assms(3) by (simp add: unat_word_ariths)
  have m: "?m \<le> INT32_MAX"
    using assms(3) by (simp add: word_le_nat_alt um INT32_MAX_def)
  have ok: "\<exists>u a1. ensureCapacity mem ?m a = (Inr u, a1) \<and>
      unat (capacity a1) = (if ?m \<le> capacity a then unat (capacity a)
              else growth_policy (unat (capacity a)) (unat ?m))"
  proof (cases rule: ensureCapacity_cases [where m = ?m and a = a and mem = mem])
    case enough
    then show ?thesis by simp
  next
    case exceeded
    with m show ?thesis by simp
  next
    case no_memory
    with assms(4) show ?thesis by (simp add: push_def Let_def)
  next
    case (realloc nc b)
    then have "\<not> ?m \<le> capacity a" by simp
    with realloc(4,5) show ?thesis by simp
  qed
  then obtain u a1 where e: "ensureCapacity mem ?m a = (Inr u, a1)"
    and c: "unat (capacity a1) = (if ?m \<le> capacity a then unat (capacity a)
              else growth_policy (unat (capacity a)) (unat ?m))"
    by blast
  note fr = ensureCapacity_Inr [OF assms(1) e assms(5)]
  have "unat (length_A a1) + length ?xs \<le> length (block_of (elements a1))"
    using fr(1,2,3) assms(2) um by (simp add: inv_A_def word_le_nat_alt)
  from copy_in_Some [OF this] obtain b where
    b: "copy_in ?xs (block_of (elements a1)) (unat (length_A a1)) = Some b"
    by blast
  let ?a' = "a1\<lparr>elements := same_block (elements a1) b, length_A := ?m\<rparr>"
  have p: "push mem elems numElements a = (Inr ?m, ?a')"
    using e b assms(2) by (simp add: push_def Let_def)
  from push_Inr(3) [OF assms(1) p assms(5)] c p show ?thesis by simp
qed


lemma push_within_capacity:
  assumes "inv_A a" "unat (length_A a) + 1 \<le> unat (capacity a)"
  shows "inv_A (snd (push mem [x] 1 a))"
    and "capacity (snd (push mem [x] 1 a)) = capacity a"
    and "unat (length_A (snd (push mem [x] 1 a))) = unat (length_A a) + 1"
proof -
  let ?b = "block_of (elements a)"
  have u: "unat (length_A a + 1) = unat (length_A a) + 1"
    using assms(2) unsigned_less [of "capacity a", where 'a = nat]
    by (simp add: unat_word_ariths)
  then have le: "length_A a + 1 \<le> capacity a"
    using assms(2) by (simp add: word_le_nat_alt)
  have "unat (length_A a) + length [x] \<le> length ?b"
    using assms by (simp add: inv_A_def)
  from copy_in_Some [OF this] obtain b where
    b: "copy_in [x] ?b (unat (length_A a)) = Some b"
    by blast
  have p: "push mem [x] 1 a =
      (Inr (length_A a + 1), a\<lparr>elements := same_block (elements a) b, length_A := length_A a + 1\<rparr>)"
    using ensureCapacity_enough [OF le, of mem] b by (simp add: push_def Let_def)
  show "inv_A (snd (push mem [x] 1 a))"
    by (rule push_frame(1) [OF assms(1) fits_enough [OF le]])
  show "capacity (snd (push mem [x] 1 a)) = capacity a"
    by (simp add: p)
  show "unat (length_A (snd (push mem [x] 1 a))) = unat (length_A a) + 1"
    by (simp add: p u)
qed

lemma pushes_within_capacity:
  assumes "inv_A a" "unat (length_A a) + k \<le> unat (capacity a)"
  shows "inv_A (((\<lambda>a. snd (push mem [x] 1 a)) ^^ k) a) \<and>
         capacity (((\<lambda>a. snd (push mem [x] 1 a)) ^^ k) a) = capacity a \<and>
         unat (length_A (((\<lambda>a. snd (push mem [x] 1 a)) ^^ k) a)) = unat (length_A a) + k"
  using assms(2)
proof (induction k)
  case 0
  with assms(1) show ?case by simp
next
  case (Suc k)
  let ?ak = "((\<lambda>a. snd (push mem [x] 1 a)) ^^ k) a"
  from Suc have ih: "inv_A ?ak" "capacity ?ak = capacity a"
    "unat (length_A ?ak) = unat (length_A a) + k"
    by simp_all
  have room: "unat (length_A ?ak) + 1 \<le> unat (capacity ?ak)"
    using ih(2,3) Suc.prems by simp
  from push_within_capacity [OF ih(1) room, of mem x] ih(2,3) show ?case
    by simp
qed

lemma push_unlimited: "fst (push unlimited elems numElements a) \<noteq> Inl OutOfMemory"
proof (cases rule: ensureCapacity_cases
    [where m = "length_A a + numElements" and a = a and mem = unlimited])
  case enough
  then show ?thesis by (simp add: push_def Let_def split: option.splits)
next
  case exceeded
  then show ?thesis by (simp add: push_def Let_def)
next
  case no_memory
  then show ?thesis
    by (auto simp: ensureCapacity_def allocateElements_def realloc_def unlimited_def Let_def
        split: if_splits)
next
  case (realloc nc b)
  then show ?thesis by (simp add: push_def Let_def split: option.splits)
qed

lemma push_from_capacity_0:
  assumes "inv_A a" "capacity a = 0" "fst (push mem [x] 1 a) \<noteq> Inl OutOfMemory"
  shows "fst (push mem [x] 1 a) = Inr 1" "capacity (snd (push mem [x] 1 a)) = 16"
    "length_A (snd (push mem [x] 1 a)) = 1"
proof -
  from assms(1,2) have l: "length_A a = 0"
    by (simp add: inv_A_def)
  have "fits mem (length_A a + 1) a"
    by (rule fits_small) (simp add: assms(2) l growth_policy_def)
  with assms(2,3) l push_appends [OF assms(1), of 1 "[x]" mem] obtain a' where
    "push mem [x] 1 a = (Inr 1, a')" "unat (capacity a') = 16" "length_A a' = 1"
    by (auto simp: growth_policy_def)
  then have "fst (push mem [x] 1 a) = Inr 1 \<and> capacity (snd (push mem [x] 1 a)) = 16 \<and>
      length_A (snd (push mem [x] 1 a)) = 1"
    by (simp add: word_unat_eq_iff)
  then show "fst (push mem [x] 1 a) = Inr 1" "capacity (snd (push mem [x] 1 a)) = 16"
    "length_A (snd (push mem [x] 1 a)) = 1"
    by simp_all
qed

lemma push_onto_full_16:
  assumes "inv_A a" "length_A a = 16" "capacity a = 16"
    "fst (push mem [x] 1 a) \<noteq> Inl OutOfMemory"
  shows "fst (push mem [x] 1 a) = Inr 17" "capacity (snd (push mem [x] 1 a)) = 32"
proof -
  have "fits mem (length_A a + 1) a"
    by (rule fits_small) (simp add: assms(2,3) growth_policy_def)
  with assms(2,3,4) push_appends [OF assms(1), of 1 "[x]" mem] obtain a' where
    "push mem [x] 1 a = (Inr 17, a')" "unat (capacity a') = 32"
    by (auto simp: growth_policy_def)
  then have "fst (push mem [x] 1 a) = Inr 17 \<and> capacity (snd (push mem [x] 1 a)) = 32"
    by (simp add: word_unat_eq_iff)
  then show "fst (push mem [x] 1 a) = Inr 17" "capacity (snd (push mem [x] 1 a)) = 32"
    by simp_all
qed

lemma sixteen_pushes:
  assumes "inv_A a" "capacity a = 0" "fst (push mem [x] 1 a) \<noteq> Inl OutOfMemory"
  shows "inv_A (((\<lambda>a. snd (push mem [x] 1 a)) ^^ 16) a)"
    "capacity (((\<lambda>a. snd (push mem [x] 1 a)) ^^ 16) a) = 16"
    "length_A (((\<lambda>a. snd (push mem [x] 1 a)) ^^ 16) a) = 16"
proof -
  let ?P = "\<lambda>a. snd (push mem [x] 1 a)"
  note first = push_from_capacity_0 [OF assms]
  have "length_A a = 0"
    using assms(1,2) by (simp add: inv_A_def)
  then have "fits mem (length_A a + 1) a"
    by (intro fits_small) (simp add: assms(2) growth_policy_def)
  then have i1: "inv_A (?P a)"
    by (rule push_frame(1) [OF assms(1)])
  have split: "(?P ^^ 16) a = (?P ^^ 15) (?P a)"
  proof -
    have "(16 :: nat) = Suc 15" by simp
    then show ?thesis by (simp only: funpow_Suc_right o_apply)
  qed
  have "unat (length_A (?P a)) + 15 \<le> unat (capacity (?P a))"
    by (simp add: first)
  from pushes_within_capacity [OF i1 this, of mem x]
  have "inv_A ((?P ^^ 16) a) \<and> capacity ((?P ^^ 16) a) = 16 \<and>
      unat (length_A ((?P ^^ 16) a)) = 16"
    by (simp add: split first)
  then show "inv_A ((?P ^^ 16) a)" "capacity ((?P ^^ 16) a) = 16" "length_A ((?P ^^ 16) a) = 16"
    by (simp_all add: word_unat_eq_iff)
qed

subsection \<open>A byte count that wraps around\<close>

lemma fill_n_outside: "length b < p + n \<Longrightarrow> 0 < n \<Longrightarrow> fill_n b p n v = None"
  using fill_n_bounds [of b p n v] by (cases "fill_n b p n v") auto

lemma ensureCapacity_wrapped:
  "ensureCapacity unlimited 1073741825 zeros2 =
     (Inr (), \<lparr>length_A = 2, capacity = 1073741825, elements = Some [Some 0]\<rparr>)"
  by (simp add: ensureCapacity_def allocateElements_def realloc_def unlimited_def zeros2_def
      INT32_MAX_def DEFAULT_CAPACITY_def CAPACITY_GROW_FACTOR_def Let_def)

lemma resize_wrapped:
  "resize unlimited 1073741825 zeros2 =
     (Inl UndefinedBehaviour,
      \<lparr>length_A = 2, capacity = 1073741825, elements = Some [Some 0]\<rparr>)"
proof -
  have "fill_n [Some (0 :: int)] 2 (unat (1073741825 - 2 :: size_t)) 0 = None"
    by (rule fill_n_outside) simp_all
  then show ?thesis
    by (simp add: resize_def ensureCapacity_wrapped)
qed

lemma set_A_wrapped:
  "set_A unlimited 1073741824 7 zeros2 =
     (Inl UndefinedBehaviour,
      \<lparr>length_A = 2, capacity = 1073741825, elements = Some [Some 0]\<rparr>)"
proof -
  have "length_A zeros2 \<le> 1073741824" "(1073741824 :: size_t) + 1 = 1073741825"
    by (simp_all add: zeros2_def)
  then show ?thesis
    by (simp add: set_A_def resize_wrapped)
qed

lemma Array_wrapped:
  "Array unlimited 1073741825 None = (Inl UndefinedBehaviour :: error + int Array)"
proof -
  have "allocateElements unlimited 1073741825 None = (Inr [None] :: error + int block)"
    by (simp add: allocateElements_def realloc_def unlimited_def INT32_MAX_def Let_def)
  moreover have "fill_n [None :: int option] 0 (unat (1073741825 :: size_t)) 0 = None"
    by (rule fill_n_outside) simp_all
  ultimately show ?thesis
    by (simp add: Array_def)
qed

subsection \<open>The example arrays\<close>

lemma examples_constructed:
  "Array unlimited 0 None = Inr empty_array"
  "Array unlimited 2 None = Inr zeros2"
  "Array unlimited 5 None = Inr zeros5"
  "Array unlimited 3 (Some [1, 2, 3]) = Inr arr123"
  by code_simp+

subsection \<open>Growth of the capacity\<close>

text \<open>
  C3. Let the array satisfy its invariants and let an operation require a capacity of at
  least \<open>requiredMinimum\<close>, more than the current capacity.  If \<open>requiredMinimum\<close> exceeds
  \<open>2\<^sup>3\<^sup>1 - 1\<close> the operation fails with CapacityExceeded and the array is unchanged.
  Otherwise, unless the allocator refuses the request, the new capacity is
  \<open>max(requiredMinimum, capacity == 0 ? 16 : capacity * 2)\<close> capped at \<open>2\<^sup>3\<^sup>1 - 1\<close>.  In
  particular a push of one element onto an array of capacity 0 gives capacity 16, a push
  of one element onto an array of length and capacity 16 gives capacity 32, and of 17
  elements pushed one after the other onto an array of capacity 0 the first 16 leave the
  capacity at 16 and the 17th makes it 32.
\<close>

theorem capacity_growth_policy:
  assumes "inv_A a"
  shows "(capacity a < requiredMinimum \<and> INT32_MAX < requiredMinimum \<longrightarrow>
            ensureCapacity mem requiredMinimum a = (Inl CapacityExceeded, a)) \<and>
         (capacity a < requiredMinimum \<and> requiredMinimum \<le> INT32_MAX \<and>
          fst (ensureCapacity mem requiredMinimum a) \<noteq> Inl OutOfMemory \<longrightarrow>
            fst (ensureCapacity mem requiredMinimum a) = Inr () \<and>
            unat (capacity (snd (ensureCapacity mem requiredMinimum a))) =
              growth_policy (unat (capacity a)) (unat requiredMinimum)) \<and>
         (capacity a = 0 \<and> fst (push mem [x] 1 a) \<noteq> Inl OutOfMemory \<longrightarrow>
            fst (push mem [x] 1 a) = Inr 1 \<and> capacity (snd (push mem [x] 1 a)) = 16) \<and>
         (length_A a = 16 \<and> capacity a = 16 \<and> fst (push mem [x] 1 a) \<noteq> Inl OutOfMemory \<longrightarrow>
            fst (push mem [x] 1 a) = Inr 17 \<and> capacity (snd (push mem [x] 1 a)) = 32) \<and>
         (capacity a = 0 \<and> fst (push mem [x] 1 a) \<noteq> Inl OutOfMemory \<and>
          fst (push mem [x] 1 (((\<lambda>a. snd (push mem [x] 1 a)) ^^ 16) a)) \<noteq> Inl OutOfMemory \<longrightarrow>
            length_A (((\<lambda>a. snd (push mem [x] 1 a)) ^^ 16) a) = 16 \<and>
            capacity (((\<lambda>a. snd (push mem [x] 1 a)) ^^ 16) a) = 16 \<and>
            capacity (((\<lambda>a. snd (push mem [x] 1 a)) ^^ 17) a) = 32)"
proof (intro conjI impI)
  assume "capacity a < requiredMinimum \<and> INT32_MAX < requiredMinimum"
  then show "ensureCapacity mem requiredMinimum a = (Inl CapacityExceeded, a)"
    by (simp add: ensureCapacity_exceeded)
next
  assume h: "capacity a < requiredMinimum \<and> requiredMinimum \<le> INT32_MAX \<and>
    fst (ensureCapacity mem requiredMinimum a) \<noteq> Inl OutOfMemory"
  then have "fst (ensureCapacity mem requiredMinimum a) = Inr () \<and>
      unat (capacity (snd (ensureCapacity mem requiredMinimum a))) =
        growth_policy (unat (capacity a)) (unat requiredMinimum)"
    by (cases rule: ensureCapacity_cases [where m = requiredMinimum and a = a and mem = mem])
      auto
  then show "fst (ensureCapacity mem requiredMinimum a) = Inr ()"
    and "unat (capacity (snd (ensureCapacity mem requiredMinimum a))) =
        growth_policy (unat (capacity a)) (unat requiredMinimum)"
    by simp_all
next
  assume "capacity a = 0 \<and> fst (push mem [x] 1 a) \<noteq> Inl OutOfMemory"
  then show "fst (push mem [x] 1 a) = Inr 1" "capacity (snd (push mem [x] 1 a)) = 16"
    using push_from_capacity_0 [OF assms, of mem x] by simp_all
next
  assume "length_A a = 16 \<and> capacity a = 16 \<and> fst (push mem [x] 1 a) \<noteq> Inl OutOfMemory"
  then show "fst (push mem [x] 1 a) = Inr 17" "capacity (snd (push mem [x] 1 a)) = 32"
    using push_onto_full_16 [OF assms, of mem x] by simp_all
next
  let ?P = "\<lambda>a. snd (push mem [x] 1 a)"
  assume h: "capacity a = 0 \<and> fst (push mem [x] 1 a) \<noteq> Inl OutOfMemory \<and>
    fst (push mem [x] 1 ((?P ^^ 16) a)) \<noteq> Inl OutOfMemory"
  then have c: "capacity a = 0" and o1: "fst (push mem [x] 1 a) \<noteq> Inl OutOfMemory"
    and o17: "fst (push mem [x] 1 ((?P ^^ 16) a)) \<noteq> Inl OutOfMemory"
    by simp_all
  note s = sixteen_pushes [OF assms c o1]
  show "length_A ((?P ^^ 16) a) = 16" "capacity ((?P ^^ 16) a) = 16"
    by (fact s)+
  have "(?P ^^ 17) a = ?P ((?P ^^ 16) a)"
  proof -
    have "(17 :: nat) = Suc 16" by simp
    then show ?thesis by (simp only: funpow.simps o_apply)
  qed
  then show "capacity ((?P ^^ 17) a) = 32"
    using push_onto_full_16(2) [OF s(1) s(3) s(2) o17] by simp
qed

theorem capacity_growth_policy_witness:
  "capacity (((\<lambda>a. snd (push unlimited [1] 1 a)) ^^ 16) empty_array) = 16 \<and>
   capacity (((\<lambda>a. snd (push unlimited [1] 1 a)) ^^ 17) empty_array) = 32 \<and>
   inv_A empty_array \<and> capacity empty_array = 0 \<and>
   fst (push unlimited [1] 1 empty_array) = Inr 1 \<and>
   capacity (snd (push unlimited [1] 1 empty_array)) = 16 \<and>
   inv_A full16 \<and> length_A full16 = 16 \<and> capacity full16 = 16 \<and>
   fst (push unlimited [1] 1 full16) = Inr 17 \<and>
   capacity (snd (push unlimited [1] 1 full16)) = 32 \<and>
   ensureCapacity unlimited 2147483648 full16 = (Inl CapacityExceeded, full16) \<and>
   unat (capacity (snd (ensureCapacity unlimited 40 full16))) = 40"
proof -
  have e: "inv_A empty_array" and f: "inv_A full16"
    by code_simp+
  have e0: "capacity empty_array = 0 \<and> fst (push unlimited [1] 1 empty_array) \<noteq> Inl OutOfMemory"
    by code_simp
  have f16: "length_A full16 = 16 \<and> capacity full16 = 16 \<and>
      fst (push unlimited [1] 1 full16) \<noteq> Inl OutOfMemory"
    by code_simp
  have big: "capacity full16 < 2147483648 \<and> INT32_MAX < 2147483648"
    by code_simp
  have forty: "capacity full16 < 40 \<and> 40 \<le> INT32_MAX \<and>
      fst (ensureCapacity unlimited 40 full16) \<noteq> Inl OutOfMemory"
    by code_simp
  have g: "growth_policy (unat (capacity full16)) (unat (40 :: size_t)) = 40"
    by (simp add: growth_policy_def full16_def)
  from capacity_growth_policy [OF e, where mem = unlimited and x = 1] e0
  have 1: "fst (push unlimited [1] 1 empty_array) = Inr 1 \<and>
      capacity (snd (push unlimited [1] 1 empty_array)) = 16"
    by blast
  from capacity_growth_policy [OF f, where mem = unlimited and x = 1] f16
  have 2: "fst (push unlimited [1] 1 full16) = Inr 17 \<and>
      capacity (snd (push unlimited [1] 1 full16)) = 32"
    by blast
  from capacity_growth_policy [OF f, where mem = unlimited and requiredMinimum = 2147483648] big
  have 3: "ensureCapacity unlimited 2147483648 full16 = (Inl CapacityExceeded, full16)"
    by blast
  from capacity_growth_policy [OF f, where mem = unlimited and requiredMinimum = 40] forty
  have 4: "unat (capacity (snd (ensureCapacity unlimited 40 full16))) =
      growth_policy (unat (capacity full16)) (unat (40 :: size_t))"
    by blast
  from capacity_growth_policy [OF e, where mem = unlimited and x = 1] e0 push_unlimited
  have 5: "capacity (((\<lambda>a. snd (push unlimited [1] 1 a)) ^^ 16) empty_array) = 16 \<and>
      capacity (((\<lambda>a. snd (push unlimited [1] 1 a)) ^^ 17) empty_array) = 32"
    by blast
  from e e0 f f16 1 2 3 4 5 g show ?thesis by simp
qed

subsection \<open>Writing at and beyond the length\<close>

text \<open>
  C2 (amended). For every array that satisfies its invariants and every index with
  \<open>length \<le> index < 2\<^sup>3\<^sup>1 - 1\<close>, \<open>set(index, value)\<close>, unless the allocator refuses the
  storage and provided the byte count of the capacity it reserves does not wrap around,
  succeeds: afterwards the length is \<open>index + 1\<close>, the previous elements are unchanged,
  every slot in \<open>[length, index)\<close> holds zero, and slot \<open>index\<close> holds the value.
\<close>

theorem set_A_beyond_length:
  assumes "inv_A a" "length_A a \<le> index" "index < INT32_MAX"
    "fits mem (index + 1) a"
    "fst (set_A mem index v a) \<noteq> Inl OutOfMemory"
  shows "\<exists>a'. set_A mem index v a = (Inr (), a') \<and> length_A a' = index + 1 \<and>
           contents a' = contents a @ replicate (unat index - unat (length_A a)) 0 @ [v]"
  using set_A_grow [OF assms(1,2,3,5,4)] by blast

theorem set_A_beyond_length_witness:
  "inv_A zeros2 \<and> length_A zeros2 = 2 \<and> fits unlimited (5 + 1) zeros2 \<and>
   (\<exists>a'. set_A unlimited 5 7 zeros2 = (Inr (), a') \<and> length_A a' = 6 \<and>
      contents a' = [0, 0, 0, 0, 0, 7])"
proof -
  have i: "inv_A zeros2" and l: "length_A zeros2 \<le> 5" and m: "(5 :: size_t) < INT32_MAX"
    and o: "fst (set_A unlimited 5 7 zeros2) \<noteq> Inl OutOfMemory"
    by code_simp+
  have f: "fits unlimited (5 + 1) zeros2"
    by (simp add: fits_def growth_policy_def zeros2_def unlimited_def)
  have c: "contents zeros2 @ replicate (unat (5 :: size_t) - unat (length_A zeros2)) 0 @ [7]
      = [0, 0, 0, 0, 0, 7]"
    and l2: "length_A zeros2 = 2"
    by code_simp+
  from set_A_beyond_length [OF i l m f o] obtain a' where
    a': "set_A unlimited 5 7 zeros2 = (Inr (), a')" "length_A a' = 5 + 1"
      "contents a' = contents zeros2 @ replicate (unat (5 :: size_t) - unat (length_A zeros2)) 0 @ [7]"
    by blast
  from a'(3) have "contents a' = [0, 0, 0, 0, 0, 7]"
    unfolding c .
  with a'(1,2) i l2 f show ?thesis by simp
qed

text \<open>
  The bound on the index is needed: at the index \<open>2\<^sup>3\<^sup>1 - 1\<close> the required capacity
  \<open>index + 1\<close> exceeds the limit that \<^verbatim>\<open>ensureCapacity\<close> checks, so \<open>set\<close> on an array of
  length 2 does not grow it to length \<open>index + 1\<close>: it fails with CapacityExceeded and
  leaves the array as it was.
\<close>

theorem set_A_at_INT32_MAX_refused:
  "inv_A zeros2 \<and> length_A zeros2 \<le> 2147483647 \<and>
   set_A unlimited 2147483647 7 zeros2 = (Inl CapacityExceeded, zeros2)"
  by code_simp

text \<open>
  Two cases are left out of the statement above.  At the largest index, \<open>2\<^sup>3\<^sup>2 - 1\<close>, the
  sum \<open>index + 1\<close> wraps around to 0: \<^verbatim>\<open>resize(0)\<close> empties the array and the write that
  follows lies outside the block.  And where the byte count of the new capacity wraps
  around, the block is smaller than the capacity says (lemma \<open>set_A_wrapped\<close>).
\<close>

lemma set_A_index_wraps:
  "set_A unlimited (- 1) 7 zeros2 = (Inl UndefinedBehaviour, zeros2\<lparr>length_A := 0\<rparr>)"
  by (simp add: set_A_def resize_def ensureCapacity_def store_def zeros2_def
      unsigned_minus_1_eq_mask mask_eq_exp_minus_1)

subsection \<open>Filling a range\<close>

text \<open>
  C4. For every array that satisfies its invariants, \<open>fill(value, start, end)\<close> resolves
  its bounds in \<^verbatim>\<open>size_t\<close>: a bound that is not negative is taken as it is, a negative
  \<open>start\<close> resolves to \<open>length + start\<close> and a negative \<open>end\<close> to \<open>length + end\<close> (as
  integers, when that sum is not negative; a sum below zero wraps around to a value
  greater than the length).  With \<open>s\<close> and \<open>e\<close> the resolved bounds, \<open>fill\<close> fails with
  IndexOutOfRange and leaves the array unchanged if \<open>s \<ge> length\<close> or \<open>e > length\<close>; it
  returns normally and leaves the array unchanged if \<open>e < s\<close>; and otherwise it sets every
  slot in \<open>[s, e)\<close> to the value and leaves the other elements and the length as they
  were.
\<close>

theorem fill_resolved_range:
  fixes a :: "'a Array" and start end' :: int32_t
  assumes "inv_A a"
  defines "s \<equiv> resolveIndex (length_A a) start" and "e \<equiv> resolveIndex (length_A a) end'"
  shows "(0 \<le> sint start \<longrightarrow> int (unat s) = sint start) \<and>
         (0 \<le> sint end' \<longrightarrow> int (unat e) = sint end') \<and>
         (sint start < 0 \<and> - int (unat (length_A a)) \<le> sint start \<longrightarrow>
            int (unat s) = int (unat (length_A a)) + sint start) \<and>
         (sint end' < 0 \<and> - int (unat (length_A a)) \<le> sint end' \<longrightarrow>
            int (unat e) = int (unat (length_A a)) + sint end') \<and>
         (sint start < 0 \<and> int (unat (length_A a)) + sint start < 0 \<longrightarrow> length_A a < s) \<and>
         (sint end' < 0 \<and> int (unat (length_A a)) + sint end' < 0 \<longrightarrow> length_A a < e) \<and>
         (length_A a \<le> s \<or> length_A a < e \<longrightarrow>
            fill v start end' a = (Inl IndexOutOfRange, a)) \<and>
         (s < length_A a \<and> e \<le> length_A a \<and> e < s \<longrightarrow> fill v start end' a = (Inr (), a)) \<and>
         (s < length_A a \<and> e \<le> length_A a \<and> s \<le> e \<longrightarrow>
            (\<exists>a'. fill v start end' a = (Inr (), a') \<and> length_A a' = length_A a \<and>
               contents a' = take (unat s) (contents a) @ replicate (unat e - unat s) v @
                 drop (unat e) (contents a)))"
proof (intro conjI impI)
  assume "0 \<le> sint start"
  then show "int (unat s) = sint start"
    unfolding s_def by (rule resolveIndex_nonnegative)
next
  assume "0 \<le> sint end'"
  then show "int (unat e) = sint end'"
    unfolding e_def by (rule resolveIndex_nonnegative)
next
  assume "sint start < 0 \<and> - int (unat (length_A a)) \<le> sint start"
  then show "int (unat s) = int (unat (length_A a)) + sint start"
    unfolding s_def by (intro resolveIndex_negative) simp_all
next
  assume "sint end' < 0 \<and> - int (unat (length_A a)) \<le> sint end'"
  then show "int (unat e) = int (unat (length_A a)) + sint end'"
    unfolding e_def by (intro resolveIndex_negative) simp_all
next
  assume "sint start < 0 \<and> int (unat (length_A a)) + sint start < 0"
  then show "length_A a < s"
    unfolding s_def by (intro resolveIndex_below_zero) simp_all
next
  assume "sint end' < 0 \<and> int (unat (length_A a)) + sint end' < 0"
  then show "length_A a < e"
    unfolding e_def by (intro resolveIndex_below_zero) simp_all
next
  assume "length_A a \<le> s \<or> length_A a < e"
  then show "fill v start end' a = (Inl IndexOutOfRange, a)"
    unfolding fill_eq [OF assms(1)] Let_def s_def e_def by simp
next
  assume "s < length_A a \<and> e \<le> length_A a \<and> e < s"
  then have "\<not> (length_A a \<le> s \<or> length_A a < e)" "e < s" by auto
  then show "fill v start end' a = (Inr (), a)"
    unfolding fill_eq [OF assms(1)] Let_def s_def e_def by simp
next
  assume h: "s < length_A a \<and> e \<le> length_A a \<and> s \<le> e"
  let ?n = "unat (length_A a)"
  let ?b = "block_of (elements a)"
  let ?b' = "take (unat s) ?b @ replicate (unat e - unat s) (Some v) @ drop (unat e) ?b"
  let ?a' = "a\<lparr>elements := same_block (elements a) ?b'\<rparr>"
  from h have n: "\<not> (length_A a \<le> s \<or> length_A a < e)" "\<not> e < s" by auto
  have eq: "fill v start end' a = (Inr (), ?a')"
    unfolding fill_eq [OF assms(1)] Let_def using n by (simp add: s_def e_def)
  have le: "unat s \<le> unat e" "unat e \<le> ?n" "?n \<le> length ?b"
    using h assms(1) by (simp_all add: word_le_nat_alt inv_A_def)
  then have l: "length ?b' = length ?b" by simp
  have t: "take ?n ?b' = take (unat s) ?b @ replicate (unat e - unat s) (Some v) @
      drop (unat e) (take ?n ?b)"
    using le by (simp add: drop_take)
  have "block_of (elements ?a') = ?b'" "length_A ?a' = length_A a"
    using block_of_same_block [OF l] by simp_all
  then have "contents ?a' = map the (take ?n ?b')"
    by (simp only: contents_def)
  also have "\<dots> = map the (take (unat s) ?b) @ replicate (unat e - unat s) v @
      map the (drop (unat e) (take ?n ?b))"
    unfolding t by simp
  also have "map the (take (unat s) ?b) = take (unat s) (contents a)"
    using le by (simp add: contents_def take_map [symmetric] min_def del: take_map)
  also have "map the (drop (unat e) (take ?n ?b)) = drop (unat e) (contents a)"
    by (simp only: contents_def drop_map)
  finally have "contents ?a' = take (unat s) (contents a) @ replicate (unat e - unat s) v @
      drop (unat e) (contents a)" .
  with eq show "\<exists>a'. fill v start end' a = (Inr (), a') \<and> length_A a' = length_A a \<and>
      contents a' = take (unat s) (contents a) @ replicate (unat e - unat s) v @
        drop (unat e) (contents a)"
    by simp
qed

text \<open>
  On an array of five zeros, \<open>fill(7, -2, -1)\<close> resolves its bounds to 3 and 4 and writes
  index 3 only; \<open>fill(7, 1, 3)\<close> writes the indices 1 and 2; \<open>fill(7, -7, 3)\<close> fails;
  \<open>fill(7, 3, 2)\<close> does nothing.
\<close>

theorem fill_resolved_range_witness:
  "inv_A zeros5 \<and> length_A zeros5 = 5 \<and>
   unat (resolveIndex (length_A zeros5) (- 2)) = 3 \<and>
   unat (resolveIndex (length_A zeros5) (- 1)) = 4 \<and>
   (\<exists>a'. fill 7 (- 2) (- 1) zeros5 = (Inr (), a') \<and> length_A a' = 5 \<and>
      contents a' = [0, 0, 0, 7, 0]) \<and>
   int (unat (resolveIndex (length_A zeros5) 1)) = 1 \<and>
   int (unat (resolveIndex (length_A zeros5) 3)) = 3 \<and>
   (\<exists>a'. fill 7 1 3 zeros5 = (Inr (), a') \<and> length_A a' = 5 \<and>
      contents a' = [0, 7, 7, 0, 0]) \<and>
   fill 7 (- 7) 3 zeros5 = (Inl IndexOutOfRange, zeros5) \<and>
   fill 7 3 2 zeros5 = (Inr (), zeros5)"
proof -
  let ?len = "length_A zeros5"
  have i: "inv_A zeros5" and l: "?len = 5"
    and r: "unat (resolveIndex ?len (- 2)) = 3" "unat (resolveIndex ?len (- 1)) = 4"
    by code_simp+
  have inside: "resolveIndex ?len (- 2) < ?len \<and> resolveIndex ?len (- 1) \<le> ?len \<and>
      resolveIndex ?len (- 2) \<le> resolveIndex ?len (- 1)"
    and ordinary: "resolveIndex ?len 1 < ?len \<and> resolveIndex ?len 3 \<le> ?len \<and>
      resolveIndex ?len 1 \<le> resolveIndex ?len 3"
    and outside: "?len \<le> resolveIndex ?len (- 7) \<or> ?len < resolveIndex ?len 3"
    and backwards: "resolveIndex ?len 3 < ?len \<and> resolveIndex ?len 2 \<le> ?len \<and>
      resolveIndex ?len 2 < resolveIndex ?len 3"
    by code_simp+
  have c: "take (unat (resolveIndex ?len (- 2))) (contents zeros5) @
      replicate (unat (resolveIndex ?len (- 1)) - unat (resolveIndex ?len (- 2))) 7 @
      drop (unat (resolveIndex ?len (- 1))) (contents zeros5) = [0, 0, 0, 7, 0]"
    and c': "take (unat (resolveIndex ?len 1)) (contents zeros5) @
      replicate (unat (resolveIndex ?len 3) - unat (resolveIndex ?len 1)) 7 @
      drop (unat (resolveIndex ?len 3)) (contents zeros5) = [0, 7, 7, 0, 0]"
    by code_simp+
  have pos: "0 \<le> sint (1 :: int32_t)" "0 \<le> sint (3 :: int32_t)" "sint (1 :: int32_t) = 1"
    "sint (3 :: int32_t) = 3"
    by simp_all
  note f = fill_resolved_range [OF i, where v = 7]
  from f [of "- 2" "- 1"] inside obtain a' where
    a': "fill 7 (- 2) (- 1) zeros5 = (Inr (), a')" "length_A a' = ?len"
      "contents a' = take (unat (resolveIndex ?len (- 2))) (contents zeros5) @
         replicate (unat (resolveIndex ?len (- 1)) - unat (resolveIndex ?len (- 2))) 7 @
         drop (unat (resolveIndex ?len (- 1))) (contents zeros5)"
    by blast
  from f [of 1 3] ordinary obtain a'' where
    a'': "fill 7 1 3 zeros5 = (Inr (), a'')" "length_A a'' = ?len"
      "contents a'' = take (unat (resolveIndex ?len 1)) (contents zeros5) @
         replicate (unat (resolveIndex ?len 3) - unat (resolveIndex ?len 1)) 7 @
         drop (unat (resolveIndex ?len 3)) (contents zeros5)"
    by blast
  from f [of 1 3] pos(1,2)
  have n: "int (unat (resolveIndex ?len 1)) = sint (1 :: int32_t)"
    "int (unat (resolveIndex ?len 3)) = sint (3 :: int32_t)"
    by blast+
  from a'(3) have "contents a' = [0, 0, 0, 7, 0]"
    unfolding c .
  moreover from a''(3) have "contents a'' = [0, 7, 7, 0, 0]"
    unfolding c' .
  moreover from f [of "- 7" 3] outside
  have "fill 7 (- 7) 3 zeros5 = (Inl IndexOutOfRange, zeros5)"
    by blast
  moreover from f [of 3 2] backwards have "fill 7 3 2 zeros5 = (Inr (), zeros5)"
    by blast
  ultimately show ?thesis
    using a'(1,2) a''(1,2) i l r n pos(3,4) by simp
qed

subsection \<open>Prepending and appending\<close>




subsection \<open>Removing the last and the first element\<close>

text \<open>
  C6. On an array of length 0, \<open>pop\<close> and \<open>shift\<close> fail with EmptyArray and the array
  after the call is the array before it.  On an array of length at least 1 that satisfies
  its invariants, \<open>pop\<close> returns the last element and leaves the elements before it, and
  \<open>shift\<close> returns the first element and leaves the elements after it, moved one slot to
  the left; both reduce the length by 1.
\<close>

theorem pop_shift:
  assumes "inv_A a"
  shows "(length_A a = 0 \<longrightarrow> pop a = (Inl EmptyArray, a) \<and> shift a = (Inl EmptyArray, a)) \<and>
         (length_A a \<noteq> 0 \<longrightarrow>
            (\<exists>a'. pop a = (Inr (last (contents a)), a') \<and>
               length_A a' = length_A a - 1 \<and> contents a' = butlast (contents a)) \<and>
            (\<exists>a'. shift a = (Inr (hd (contents a)), a') \<and>
               length_A a' = length_A a - 1 \<and> contents a' = tl (contents a)))"
proof (intro conjI impI)
  assume "length_A a = 0"
  then show "pop a = (Inl EmptyArray, a)" "shift a = (Inl EmptyArray, a)"
    by (simp_all add: pop_empty shift_empty)
next
  assume n: "length_A a \<noteq> 0"
  from pop_nonempty(1,2) [OF assms n]
  show "\<exists>a'. pop a = (Inr (last (contents a)), a') \<and>
      length_A a' = length_A a - 1 \<and> contents a' = butlast (contents a)"
    by simp
  from shift_nonempty [OF assms n]
  show "\<exists>a'. shift a = (Inr (hd (contents a)), a') \<and>
      length_A a' = length_A a - 1 \<and> contents a' = tl (contents a)"
    by blast
qed

theorem pop_shift_witness:
  "inv_A empty_array \<and> length_A empty_array = 0 \<and>
   pop empty_array = (Inl EmptyArray, empty_array) \<and>
   shift empty_array = (Inl EmptyArray, empty_array) \<and>
   inv_A arr123 \<and> contents arr123 = [1, 2, 3] \<and>
   (\<exists>a'. pop arr123 = (Inr 3, a') \<and> length_A a' = 2 \<and> contents a' = [1, 2]) \<and>
   (\<exists>a'. shift arr123 = (Inr 1, a') \<and> length_A a' = 2 \<and> contents a' = [2, 3])"
proof -
  have e: "inv_A empty_array" "length_A empty_array = 0"
    and i: "inv_A arr123" "length_A arr123 \<noteq> 0"
    and c: "contents arr123 = [1, 2, 3]" "length_A arr123 - 1 = 2"
    by code_simp+
  from pop_shift [OF e(1)] e(2)
  have 1: "pop empty_array = (Inl EmptyArray, empty_array) \<and>
      shift empty_array = (Inl EmptyArray, empty_array)"
    by blast
  from pop_shift [OF i(1)] i(2)
  have 2: "(\<exists>a'. pop arr123 = (Inr (last (contents arr123)), a') \<and>
               length_A a' = length_A arr123 - 1 \<and> contents a' = butlast (contents arr123)) \<and>
            (\<exists>a'. shift arr123 = (Inr (hd (contents arr123)), a') \<and>
               length_A a' = length_A arr123 - 1 \<and> contents a' = tl (contents arr123))"
    by blast
  from 1 2 e i(1) show ?thesis
    unfolding c by simp
qed

subsection \<open>The invariants of the buffer\<close>

text \<open>
  As long as no byte count wraps around, the array that the constructor returns satisfies
  the invariants (length at most capacity; pointer empty exactly when the capacity is 0,
  with as many slots behind it as the capacity says; every slot below the length written),
  and every operation preserves them, whether it returns normally or fails.
\<close>

lemma invariants_preserved:
  assumes "inv_A a"
  shows "\<And>a0. Array mem sz src = Inr a0 \<Longrightarrow>
           unat sz * unat (sizeof (sizeof_T mem)) < 4294967296 \<Longrightarrow> inv_A a0"
    and "(length_A a \<le> index \<Longrightarrow> fits mem (index + 1) a) \<Longrightarrow>
           inv_A (snd (set_A mem index v a))"
    and "inv_A (snd (fill v start end' a))"
    and "fits mem (length_A a + numElements) a \<Longrightarrow>
           inv_A (snd (push mem elems numElements a))"
    and "fits mem (length_A a + numElements) a \<Longrightarrow>
           inv_A (snd (unshift mem elems numElements a))"
    and "inv_A (snd (pop a))"
    and "inv_A (snd (shift a))"
    and "fits mem newSize a \<Longrightarrow> inv_A (snd (resize mem newSize a))"
    and "fits mem newSize a \<Longrightarrow> inv_A (snd (ensureCapacity mem newSize a))"
  using assms
  by (simp_all add: Array_Inr(1) set_A_frame(1) fill_frame(1) push_frame(1) unshift_frame(1)
      pop_frame(1) shift_frame(1) resize_frame(1) ensureCapacity_frame(1))

text \<open>
  C9. Not every operation preserves the invariants.  \<^verbatim>\<open>allocateElements\<close> checks the
  capacity against \<^verbatim>\<open>INT32_MAX\<close> but not the byte count \<^verbatim>\<open>capacity * sizeof(T)\<close> against
  \<^verbatim>\<open>size_t\<close>.  On an array of two 4-byte elements, \<^verbatim>\<open>ensureCapacity(1073741825)\<close> asks
  \<^verbatim>\<open>realloc\<close> for \<open>1073741825 * 4 = 4 (mod 2\<^sup>3\<^sup>2)\<close> bytes and returns normally: the array
  then has length 2 and capacity 1073741825 over a block of one element, so that slot 1,
  which is below the length, lies outside the allocation.  \<^verbatim>\<open>resize(1073741825)\<close>,
  \<^verbatim>\<open>set(1073741824, 7)\<close> and the constructor \<^verbatim>\<open>Array(1073741825)\<close> go on to write outside
  the block they were granted.
\<close>

theorem resize_byte_count_wraps:
  "inv_A zeros2 \<and>
   ensureCapacity unlimited 1073741825 zeros2 =
     (Inr (), \<lparr>length_A = 2, capacity = 1073741825, elements = Some [Some 0]\<rparr>) \<and>
   resize unlimited 1073741825 zeros2 =
     (Inl UndefinedBehaviour,
      \<lparr>length_A = 2, capacity = 1073741825, elements = Some [Some 0]\<rparr>) \<and>
   set_A unlimited 1073741824 7 zeros2 =
     (Inl UndefinedBehaviour,
      \<lparr>length_A = 2, capacity = 1073741825, elements = Some [Some 0]\<rparr>) \<and>
   Array unlimited 1073741825 None = (Inl UndefinedBehaviour :: error + int Array) \<and>
   load (Some [Some (0 :: int)]) 1 = None \<and>
   \<not> inv_A \<lparr>length_A = 2, capacity = 1073741825, elements = Some [Some (0 :: int)]\<rparr>"
proof -
  have "inv_A zeros2"
    by code_simp
  moreover have "load (Some [Some (0 :: int)]) 1 = None"
    "\<not> inv_A \<lparr>length_A = 2, capacity = 1073741825, elements = Some [Some (0 :: int)]\<rparr>"
    by (simp_all add: load_def inv_A_def)
  ultimately show ?thesis
    using ensureCapacity_wrapped resize_wrapped set_A_wrapped Array_wrapped by simp
qed

subsection \<open>The capacity never shrinks\<close>








end
